theory Spec2Isabelle
  imports Main "HOL-Library.Word"
begin

unbundle bit_operations_syntax

section \<open>JavaScript values\<close>

text \<open>
  A JavaScript string is a sequence of UTF-16 code units: \<open>length\<close>, \<open>slice\<close> and
  \<open>charCodeAt\<close> count and read code units. String literals of the source are ASCII and
  are written through \<open>str\<close>.
\<close>

type_synonym jschar = "16 word"
type_synonym jsstring = "jschar list"
type_synonym byte = "8 word"

definition chr :: "char \<Rightarrow> jschar" where
  "chr c = of_nat (of_char c)"

definition str :: "string \<Rightarrow> jsstring" where
  "str s = map chr s"

text \<open>
  \<open>String.prototype.slice(start, end)\<close> for non-negative integer arguments: both ends are
  clipped to the length, and an end before the start gives the empty string.
\<close>

definition slice :: "'a list \<Rightarrow> nat \<Rightarrow> nat \<Rightarrow> 'a list" where
  "slice s start end = take (end - start) (drop start s)"

text \<open>\<open>String.prototype.padStart(targetLength, padString)\<close> for a one-character pad string.\<close>

definition padStart :: "jsstring \<Rightarrow> nat \<Rightarrow> jschar \<Rightarrow> jsstring" where
  "padStart s targetLength c = replicate (targetLength - length s) c @ s"

text \<open>
  \<open>Number.prototype.toString(16)\<close> on an integer: lowercase digits, no leading zero,
  a minus sign for a negative number.
\<close>

definition hexDigit :: "int \<Rightarrow> jschar" where
  "hexDigit d = (if d < 10 then word_of_int (48 + d) else word_of_int (87 + d))"

function hexDigits :: "int \<Rightarrow> jsstring" where
  "hexDigits n = (if n < 16 then [hexDigit n] else hexDigits (n div 16) @ [hexDigit (n mod 16)])"
  by pat_completeness auto
termination
  by (relation "measure nat") auto

declare hexDigits.simps [simp del]

definition toString16 :: "int \<Rightarrow> jsstring" where
  "toString16 n = (if n < 0 then chr CHR ''-'' # hexDigits (- n) else hexDigits n)"

text \<open>
  The 32-bit operators of JavaScript convert their operands with ToInt32 (the low 32 bits
  of the integer), work on the bit pattern and give back a signed value (\<open>^\<close>, \<open>&\<close>,
  \<open>>>\<close>) or an unsigned one (\<open>>>>\<close>). The shift count is taken modulo 32.
  Numbers are modelled as \<open>int\<close>: every number these functions meet is an integer far
  below \<open>2 ^ 53\<close>, where the arithmetic of doubles is exact.
\<close>

definition toInt32 :: "int \<Rightarrow> 32 word" where
  "toInt32 n = word_of_int n"

definition js_xor :: "int \<Rightarrow> int \<Rightarrow> int" where
  "js_xor a b = sint (toInt32 a XOR toInt32 b)"

definition js_and :: "int \<Rightarrow> int \<Rightarrow> int" where
  "js_and a b = sint (toInt32 a AND toInt32 b)"

definition js_sar :: "int \<Rightarrow> nat \<Rightarrow> int" where
  "js_sar a k = sint (signed_drop_bit (k mod 32) (toInt32 a))"

definition js_shr :: "int \<Rightarrow> nat \<Rightarrow> int" where
  "js_shr a k = uint (drop_bit (k mod 32) (toInt32 a))"

section \<open>Content sealing (src/utils/merkleTree.ts)\<close>

subsection \<open>The host: encoder, digest primitive, number formatting\<close>

text \<open>
  \<open>sha256\<close> calls \<open>TextEncoder.encode\<close> and \<open>crypto.subtle.digest\<close>; the template
  literals of the seal format a number as a string. These belong to the host, so they are
  fields of a record the functions take. The digest primitive may reject: \<open>Inl e\<close> is the
  exception \<open>e\<close>.
\<close>

record 'e host =
  encode :: "jsstring \<Rightarrow> byte list"
  digest :: "byte list \<Rightarrow> 'e + byte list"
  numToString :: "int \<Rightarrow> jsstring"

text \<open>
  A byte array as lowercase hexadecimal, two digits a byte
  (\<open>b.toString(16).padStart(2, '0')\<close>, joined): the form of a digest and of the nonce.
  \<open>sha256\<close> is only ever called with a string, so only that branch is modelled.
\<close>

definition hexBytes :: "byte list \<Rightarrow> jsstring" where
  "hexBytes bs = concat (map (\<lambda>b. padStart (toString16 (uint b)) 2 (chr CHR ''0'')) bs)"

definition sha256 :: "'e host \<Rightarrow> jsstring \<Rightarrow> 'e + jsstring" where
  "sha256 h data =
     (case digest h (encode h data) of
        Inl e \<Rightarrow> Inl e
      | Inr hashBuffer \<Rightarrow> Inr (hexBytes hashBuffer))"

subsection \<open>chunkContent\<close>

text \<open>
  The \<open>for\<close> loop of \<open>chunkContent\<close> advances \<open>i\<close> by \<open>chunkSize\<close>; with
  \<open>chunkSize = 0\<close> and non-empty content it never ends, which is the value \<open>None\<close>.
\<close>

partial_function (option) chunkLoop ::
  "'a list \<Rightarrow> nat \<Rightarrow> nat \<Rightarrow> 'a list list \<Rightarrow> 'a list list option" where
  "chunkLoop content chunkSize i chunks =
     (if i < length content
      then chunkLoop content chunkSize (i + chunkSize)
             (chunks @ [slice content i (i + chunkSize)])
      else Some chunks)"

declare chunkLoop.simps [code]

definition chunkContent :: "'a list \<Rightarrow> nat \<Rightarrow> 'a list list option" where
  "chunkContent content chunkSize =
     (case chunkLoop content chunkSize 0 [] of
        None \<Rightarrow> None
      | Some chunks \<Rightarrow> Some (if length chunks > 0 then chunks else [[]]))"

text \<open>
  The chunks as the specification describes them: the content cut from the left into
  pieces of \<open>sz\<close> characters, the last one holding what remains.
\<close>

function spec_chunks :: "nat \<Rightarrow> 'a list \<Rightarrow> 'a list list" where
  "spec_chunks sz s =
     (if s = [] \<or> sz = 0 then [] else take sz s # spec_chunks sz (drop sz s))"
  by pat_completeness auto
termination
  by (relation "measure (\<lambda>(sz, s). length s)") auto

declare spec_chunks.simps [simp del]

subsection \<open>buildMerkleRoot and the seal\<close>

text \<open>
  \<open>Promise.all(chunks.map(chunk => sha256(chunk)))\<close>: the leaf hashes in the order of
  the chunks, or the rejection of the first chunk whose digest rejects.
\<close>

fun hashAll :: "'e host \<Rightarrow> jsstring list \<Rightarrow> 'e + jsstring list" where
  "hashAll h [] = Inr []"
| "hashAll h (chunk # chunks) =
     (case sha256 h chunk of
        Inl e \<Rightarrow> Inl e
      | Inr leaf \<Rightarrow>
          (case hashAll h chunks of
             Inl e \<Rightarrow> Inl e
           | Inr leaves \<Rightarrow> Inr (leaf # leaves)))"

text \<open>
  The \<open>for\<close> loop that builds \<open>nextLevel\<close> from \<open>level\<close>, by index in steps of two,
  and the \<open>while\<close> loop around it, which goes on as long as the level has more than one
  node.
\<close>

function pairLoop :: "'e host \<Rightarrow> jsstring list \<Rightarrow> nat \<Rightarrow> jsstring list \<Rightarrow> 'e + jsstring list" where
  "pairLoop h level i nextLevel =
     (if i < length level
      then (if i + 1 < length level
            then (case sha256 h (level ! i @ level ! (i + 1)) of
                    Inl e \<Rightarrow> Inl e
                  | Inr parent \<Rightarrow> pairLoop h level (i + 2) (nextLevel @ [parent]))
            else pairLoop h level (i + 2) (nextLevel @ [level ! i]))
      else Inr nextLevel)"
  by pat_completeness auto
termination
  by (relation "measure (\<lambda>(h, level, i, nextLevel). length level - i)") auto

declare pairLoop.simps [simp del]

function whileLoop :: "'e host \<Rightarrow> jsstring list \<Rightarrow> 'e + jsstring list" where
  "whileLoop h level =
     (if length level > 1
      then (case pairLoop h level 0 [] of
              Inl e \<Rightarrow> Inl e
            | Inr nextLevel \<Rightarrow> whileLoop h nextLevel)
      else Inr level)"
  by pat_completeness auto
termination
proof (relation "measure (\<lambda>(h, level). length level)")
  show "wf (measure (\<lambda>(h :: 'e host, level). length level))"
    by simp
next
  fix h :: "'e host" and level nextLevel :: "jsstring list"
  assume long: "1 < length level" and nxt: "pairLoop h level 0 [] = Inr nextLevel"
  have len: "pairLoop h level i acc = Inr res \<Longrightarrow>
      length res = length acc + (length level - i + 1) div 2" for i acc res
  proof (induction h level i acc rule: pairLoop.induct)
    case (1 h level i nextLevel)
    show ?case
    proof (cases "i < length level")
      case False
      with "1.prems" show ?thesis
        by (simp add: pairLoop.simps)
    next
      case True
      note inr = this
      show ?thesis
      proof (cases "i + 1 < length level")
        case True
        with inr "1.prems" obtain parent
          where p: "sha256 h (level ! i @ level ! (i + 1)) = Inr parent"
            and r: "pairLoop h level (i + 2) (nextLevel @ [parent]) = Inr res"
          by (subst (asm) pairLoop.simps) (auto split: sum.splits)
        have "length level - i + 1 = (length level - (i + 2) + 1) + 2"
          using True by arith
        then have "(length level - i + 1) div 2 = Suc ((length level - (i + 2) + 1) div 2)"
          by simp
        with "1.IH"(1) [OF inr True p r] show ?thesis
          by simp
      next
        case False
        with inr "1.prems" have r: "pairLoop h level (i + 2) (nextLevel @ [level ! i]) = Inr res"
          by (subst (asm) pairLoop.simps) simp
        have "length level - i = 1" "length level - (i + 2) = 0"
          using False inr by arith+
        with "1.IH"(2) [OF inr False r] show ?thesis
          by simp
      qed
    qed
  qed
  from len [OF nxt] long have "length nextLevel < length level"
    by simp
  then show "((h, nextLevel), (h, level)) \<in> measure (\<lambda>(h, level). length level)"
    by simp
qed

declare whileLoop.simps [simp del]

text \<open>
  \<open>buildMerkleRoot\<close> returns \<open>level[0]\<close>. The loop ends with exactly one node when it
  starts with at least one (\<open>spec_reduce_singleton\<close> below), and \<open>chunkContent\<close> never
  gives an empty list, so the index is in range. The outer \<open>option\<close> is \<open>None\<close> when
  the function does not return; \<open>Inl e\<close> is a rejected promise.
\<close>

definition buildMerkleRoot :: "'e host \<Rightarrow> jsstring \<Rightarrow> ('e + jsstring) option" where
  "buildMerkleRoot h content =
     (case chunkContent content 4096 of
        None \<Rightarrow> None
      | Some chunks \<Rightarrow>
          Some (case hashAll h chunks of
                  Inl e \<Rightarrow> Inl e
                | Inr leaves \<Rightarrow>
                    (case whileLoop h leaves of
                       Inl e \<Rightarrow> Inl e
                     | Inr level \<Rightarrow> Inr (level ! 0))))"

record TimeLockSeal =
  contentHash :: jsstring
  timestamp :: int
  nonce :: jsstring
  sealHash :: jsstring
  version :: int

text \<open>
  The template literal \<open>`${contentHash}:${timestamp}:${nonce}`\<close>, which both
  \<open>createTimeLockSeal\<close> and \<open>verifyTimeLockSeal\<close> hash. \<open>Date.now()\<close> is the argument
  \<open>now\<close>, and the 16 bytes that \<open>crypto.getRandomValues\<close> writes are the argument
  \<open>nonceArray\<close>. A timestamp is an integer number of milliseconds.
\<close>

definition sealData :: "'e host \<Rightarrow> jsstring \<Rightarrow> int \<Rightarrow> jsstring \<Rightarrow> jsstring" where
  "sealData h contentHash' timestamp' nonce' =
     contentHash' @ str '':'' @ numToString h timestamp' @ str '':'' @ nonce'"

definition createTimeLockSeal ::
  "'e host \<Rightarrow> int \<Rightarrow> byte list \<Rightarrow> jsstring \<Rightarrow> ('e + TimeLockSeal) option" where
  "createTimeLockSeal h now nonceArray content =
     (case buildMerkleRoot h content of
        None \<Rightarrow> None
      | Some (Inl e) \<Rightarrow> Some (Inl e)
      | Some (Inr contentHash') \<Rightarrow>
          (let timestamp' = now;
               nonce' = hexBytes nonceArray
           in Some (case sha256 h (sealData h contentHash' timestamp' nonce') of
                      Inl e \<Rightarrow> Inl e
                    | Inr sealHash' \<Rightarrow>
                        Inr \<lparr>contentHash = contentHash', timestamp = timestamp',
                             nonce = nonce', sealHash = sealHash', version = 1\<rparr>)))"

text \<open>
  The result \<open>{valid, reason?}\<close> of a verification. \<open>tryVerify\<close> is the body of the
  \<open>try\<close> block, \<open>verifyTimeLockSeal\<close> adds the \<open>catch\<close>.
\<close>

record verification =
  valid :: bool
  reason :: "jsstring option"

definition tryVerify ::
  "'e host \<Rightarrow> int \<Rightarrow> jsstring \<Rightarrow> TimeLockSeal \<Rightarrow> ('e + verification) option" where
  "tryVerify h now content seal =
     (case buildMerkleRoot h content of
        None \<Rightarrow> None
      | Some (Inl e) \<Rightarrow> Some (Inl e)
      | Some (Inr contentHash') \<Rightarrow>
          Some (if contentHash' \<noteq> contentHash seal
                then Inr \<lparr>valid = False, reason = Some (str ''Content has been modified'')\<rparr>
                else (case sha256 h (sealData h (contentHash seal) (timestamp seal) (nonce seal)) of
                        Inl e \<Rightarrow> Inl e
                      | Inr expectedSealHash \<Rightarrow>
                          if expectedSealHash \<noteq> sealHash seal
                          then Inr \<lparr>valid = False, reason = Some (str ''Seal has been tampered with'')\<rparr>
                          else if timestamp seal > now
                          then Inr \<lparr>valid = False, reason = Some (str ''Timestamp is in the future'')\<rparr>
                          else Inr \<lparr>valid = True, reason = None\<rparr>)))"

definition verifyTimeLockSeal ::
  "'e host \<Rightarrow> int \<Rightarrow> jsstring \<Rightarrow> TimeLockSeal \<Rightarrow> ('e + verification) option" where
  "verifyTimeLockSeal h now content seal =
     (case tryVerify h now content seal of
        None \<Rightarrow> None
      | Some (Inl e) \<Rightarrow> Some (Inr \<lparr>valid = False, reason = Some (str ''Verification error'')\<rparr>)
      | Some (Inr result) \<Rightarrow> Some (Inr result))"

text \<open>
  The reduction as the specification describes it, over any hash function \<open>H\<close>: adjacent
  hashes are paired from the left, a pair becomes the hash of the two strings put together,
  an odd last node is kept as it is; this is repeated until at most one hash remains.
\<close>

fun spec_pairs :: "(jsstring \<Rightarrow> 'e + jsstring) \<Rightarrow> jsstring list \<Rightarrow> 'e + jsstring list" where
  "spec_pairs H (left # right # rest) =
     (case H (left @ right) of
        Inl e \<Rightarrow> Inl e
      | Inr parent \<Rightarrow>
          (case spec_pairs H rest of
             Inl e \<Rightarrow> Inl e
           | Inr parents \<Rightarrow> Inr (parent # parents)))"
| "spec_pairs H [single] = Inr [single]"
| "spec_pairs H [] = Inr []"

lemma length_spec_pairs:
  "spec_pairs H level = Inr nextLevel \<Longrightarrow> length nextLevel = (length level + 1) div 2"
  by (induction H level arbitrary: nextLevel rule: spec_pairs.induct)
     (auto split: sum.splits)

function spec_reduce :: "(jsstring \<Rightarrow> 'e + jsstring) \<Rightarrow> jsstring list \<Rightarrow> 'e + jsstring list" where
  "spec_reduce H level =
     (if length level \<le> 1 then Inr level
      else (case spec_pairs H level of
              Inl e \<Rightarrow> Inl e
            | Inr nextLevel \<Rightarrow> spec_reduce H nextLevel))"
  by pat_completeness auto
termination
  by (relation "measure (\<lambda>(H, level). length level)")
     (auto dest!: length_spec_pairs)

declare spec_reduce.simps [simp del]



subsection \<open>A small host for concrete runs\<close>

text \<open>
  A host whose digest is short enough to follow by hand: it takes the low byte of every
  code unit, rejects the empty input, and returns the length (modulo 256) and the first
  byte of its input. Numbers are printed in hexadecimal.
\<close>

definition toy_host :: "unit host" where
  "toy_host =
     \<lparr>encode = map ucast,
      digest = (\<lambda>bs. if bs = [] then Inl () else Inr [of_nat (length bs), hd bs]),
      numToString = toString16\<rparr>"

definition toy_nonce :: "byte list" where
  "toy_nonce = [1, 2, 3, 4, 5, 6, 7, 8, 9, 10, 11, 12, 13, 14, 15, 255]"

definition toy_seal :: TimeLockSeal where
  "toy_seal =
     \<lparr>contentHash = str ''0261'', timestamp = 1000,
      nonce = str ''0102030405060708090a0b0c0d0e0fff'',
      sealHash = str ''2930'', version = 1\<rparr>"

section \<open>Similarity fingerprints (src/unnamed/part_001)\<close>

record SimHash64 =
  high :: int
  low :: int

text \<open>
  \<open>fnv1a64\<close> keeps its state in two numbers, \<open>low\<close> and \<open>high\<close>. \<open>low ^= char\<close>
  leaves a signed 32-bit value in \<open>low\<close>; the product \<open>temp\<close> and the sum for
  \<open>high\<close> are exact in double arithmetic, \<open>Math.floor(temp / 0x100000000)\<close> is the
  floor division of integers, and \<open>>>> 0\<close> reduces modulo \<open>2 ^ 32\<close>.
\<close>

definition FNV_PRIME_LOW :: int where "FNV_PRIME_LOW = 0x01b3"
definition FNV_PRIME_HIGH :: int where "FNV_PRIME_HIGH = 0x0100"
definition FNV_OFFSET_LOW :: int where "FNV_OFFSET_LOW = 0x62b82175"
definition FNV_OFFSET_HIGH :: int where "FNV_OFFSET_HIGH = 0xcbf29ce4"

definition charCode :: "jschar \<Rightarrow> int" where
  "charCode c = uint c"

fun fnv1a64_loop :: "jsstring \<Rightarrow> int \<times> int \<Rightarrow> int \<times> int" where
  "fnv1a64_loop [] (low', high') = (low', high')"
| "fnv1a64_loop (c # rest) (low', high') =
     (let char = charCode c;
          low1 = js_xor low' char;
          temp = low1 * FNV_PRIME_LOW;
          low2 = js_shr temp 0;
          high2 = js_shr (high' * FNV_PRIME_LOW + high' * FNV_PRIME_HIGH
                          + temp div 0x100000000) 0
      in fnv1a64_loop rest (low2, high2))"

definition fnv1a64 :: "jsstring \<Rightarrow> SimHash64" where
  "fnv1a64 s =
     (case fnv1a64_loop s (FNV_OFFSET_LOW, FNV_OFFSET_HIGH) of
        (low', high') \<Rightarrow> \<lparr>high = high', low = low'\<rparr>)"

text \<open>
  In \<open>popcount32\<close>, \<open>-\<close> and \<open>+\<close> are the arithmetic of numbers and do not wrap;
  \<open>>>\<close> and \<open>&\<close> convert their operands to signed 32-bit values first.
\<close>

definition popcount32 :: "int \<Rightarrow> int" where
  "popcount32 n =
     (let n1 = n - js_and (js_sar n 1) 0x55555555;
          n2 = js_and n1 0x33333333 + js_and (js_sar n1 2) 0x33333333;
          n3 = js_and (n2 + js_sar n2 4) 0x0f0f0f0f;
          n4 = n3 + js_sar n3 8;
          n5 = n4 + js_sar n4 16
      in js_and n5 0x3f)"

definition hammingDistance :: "SimHash64 \<Rightarrow> SimHash64 \<Rightarrow> int" where
  "hammingDistance a b =
     (let xorHigh = js_xor (high a) (high b);
          xorLow = js_xor (low a) (low b)
      in popcount32 xorHigh + popcount32 xorLow)"

definition isSimilar :: "SimHash64 \<Rightarrow> SimHash64 \<Rightarrow> int \<Rightarrow> bool" where
  "isSimilar a b threshold = (hammingDistance a b \<le> threshold)"

definition simHashToHex :: "SimHash64 \<Rightarrow> jsstring" where
  "simHashToHex hash =
     (let highHex = padStart (toString16 (high hash)) 8 (chr CHR ''0'');
          lowHex = padStart (toString16 (low hash)) 8 (chr CHR ''0'')
      in highHex @ lowHex)"

text \<open>
  \<open>parseInt(string, 16)\<close>: leading white space is skipped, then a sign, then a prefix
  \<open>0x\<close> or \<open>0X\<close>; the number is read from the longest run of hexadecimal digits that
  follows, in either case; with no digit the result is \<open>NaN\<close>, here \<open>None\<close>.
  \<open>>>> 0\<close> turns \<open>NaN\<close> into 0 and any other number into its low 32 bits.
\<close>

definition isWhiteSpace :: "jschar \<Rightarrow> bool" where
  "isWhiteSpace c =
     (c \<in> {0x09, 0x0A, 0x0B, 0x0C, 0x0D, 0x20, 0xA0, 0x1680, 0x2028, 0x2029, 0x202F,
            0x205F, 0x3000, 0xFEFF}
      \<or> (0x2000 \<le> c \<and> c \<le> 0x200A))"

definition digitValue :: "jschar \<Rightarrow> int option" where
  "digitValue c =
     (if 48 \<le> c \<and> c \<le> 57 then Some (uint c - 48)
      else if 97 \<le> c \<and> c \<le> 122 then Some (uint c - 87)
      else if 65 \<le> c \<and> c \<le> 90 then Some (uint c - 55)
      else None)"

definition digitOf :: "jschar \<Rightarrow> int" where
  "digitOf c = (case digitValue c of None \<Rightarrow> 0 | Some d \<Rightarrow> d)"

definition isRadixDigit :: "int \<Rightarrow> jschar \<Rightarrow> bool" where
  "isRadixDigit R c = (case digitValue c of None \<Rightarrow> False | Some d \<Rightarrow> d < R)"

definition parseInt16 :: "jsstring \<Rightarrow> int option" where
  "parseInt16 inputString =
     (let S = dropWhile isWhiteSpace inputString;
          sign = (if S \<noteq> [] \<and> hd S = chr CHR ''-'' then - 1 else 1 :: int);
          S1 = (if S \<noteq> [] \<and> (hd S = chr CHR ''+'' \<or> hd S = chr CHR ''-'') then tl S else S);
          S2 = (if length S1 \<ge> 2 \<and> (take 2 S1 = str ''0x'' \<or> take 2 S1 = str ''0X'')
                then drop 2 S1 else S1);
          Z = takeWhile (isRadixDigit 16) S2
      in if Z = [] then None
         else Some (sign * foldl (\<lambda>acc c. 16 * acc + digitOf c) 0 Z))"

definition toUint32 :: "int option \<Rightarrow> int" where
  "toUint32 v = (case v of None \<Rightarrow> 0 | Some n \<Rightarrow> js_shr n 0)"

definition hexToSimHash :: "jsstring \<Rightarrow> SimHash64" where
  "hexToSimHash hex =
     (if length hex \<noteq> 16 then \<lparr>high = 0, low = 0\<rparr>
      else \<lparr>high = toUint32 (parseInt16 (slice hex 0 8)),
            low = toUint32 (parseInt16 (slice hex 8 16))\<rparr>)"

text \<open>
  The two loops of \<open>clusterBySimilarity\<close>. The state of the inner loop is the cluster
  being built and the set \<open>visited\<close>; the state of the outer loop is \<open>visited\<close> and
  the clusters found so far. Indices are read from \<open>hashes\<close> only below its length.
\<close>

function innerLoop ::
  "SimHash64 list \<Rightarrow> int \<Rightarrow> nat \<Rightarrow> nat \<Rightarrow> nat list \<times> nat set \<Rightarrow> nat list \<times> nat set" where
  "innerLoop hashes threshold i j (cluster, visited) =
     (if j < length hashes
      then (if j \<in> visited
            then innerLoop hashes threshold i (j + 1) (cluster, visited)
            else if isSimilar (hashes ! i) (hashes ! j) threshold
            then innerLoop hashes threshold i (j + 1) (cluster @ [j], insert j visited)
            else innerLoop hashes threshold i (j + 1) (cluster, visited))
      else (cluster, visited))"
  by pat_completeness auto
termination
  by (relation "measure (\<lambda>(hashes, threshold, i, j, st). length hashes - j)") auto

declare innerLoop.simps [simp del]

function outerLoop ::
  "SimHash64 list \<Rightarrow> int \<Rightarrow> nat \<Rightarrow> nat set \<times> nat list list \<Rightarrow> nat list list" where
  "outerLoop hashes threshold i (visited, clusters) =
     (if i < length hashes
      then (if i \<in> visited
            then outerLoop hashes threshold (i + 1) (visited, clusters)
            else (case innerLoop hashes threshold i (i + 1) ([i], insert i visited) of
                    (cluster, visited') \<Rightarrow>
                      outerLoop hashes threshold (i + 1) (visited', clusters @ [cluster])))
      else clusters)"
  by pat_completeness auto
termination
  by (relation "measure (\<lambda>(hashes, threshold, i, st). length hashes - i)") auto

declare outerLoop.simps [simp del]

definition clusterBySimilarity :: "SimHash64 list \<Rightarrow> int \<Rightarrow> nat list list" where
  "clusterBySimilarity hashes threshold = outerLoop hashes threshold 0 ({}, [])"

text \<open>
  The specification's side of the claims: the standard 64-bit FNV-1a hash of the character
  codes and its two halves, the unsigned 32-bit range, and bits counted one by one.
\<close>

definition spec_fnv1a64 :: "jsstring \<Rightarrow> 64 word" where
  "spec_fnv1a64 s = foldl (\<lambda>hash c. (hash XOR ucast c) * 0x100000001b3) 0xcbf29ce484222325 s"

definition spec_halves :: "64 word \<Rightarrow> SimHash64" where
  "spec_halves w = \<lparr>high = uint (drop_bit 32 w), low = uint (take_bit 32 w)\<rparr>"

definition is_uint32 :: "int \<Rightarrow> bool" where
  "is_uint32 n = (0 \<le> n \<and> n < 2 ^ 32)"

definition spec_bit_count :: "int \<Rightarrow> nat" where
  "spec_bit_count n = length (filter (bit n) [0..<32])"

definition spec_differing_bits :: "int \<Rightarrow> int \<Rightarrow> nat" where
  "spec_differing_bits x y = length (filter (\<lambda>i. bit x i \<noteq> bit y i) [0..<32])"


text \<open>
  A serialized fingerprint as the specification describes it: 16 characters, each a
  lowercase hexadecimal digit.
\<close>

definition isLowerHex :: "jschar \<Rightarrow> bool" where
  "isLowerHex c = ((48 \<le> c \<and> c \<le> 57) \<or> (97 \<le> c \<and> c \<le> 102))"

definition spec_valid_hex16 :: "jsstring \<Rightarrow> bool" where
  "spec_valid_hex16 s = (length s = 16 \<and> list_all isLowerHex s)"

text \<open>
  The zero-padded lowercase hexadecimal form of a number on \<open>k\<close> digits, and the value
  of a string of hexadecimal digits.
\<close>

primrec spec_hex :: "nat \<Rightarrow> int \<Rightarrow> jsstring" where
  "spec_hex 0 n = []"
| "spec_hex (Suc k) n = spec_hex k (n div 16) @ [chr (''0123456789abcdef'' ! nat (n mod 16))]"

definition hexval :: "jsstring \<Rightarrow> int" where
  "hexval s = foldl (\<lambda>acc c. 16 * acc + digitOf c) 0 s"

section \<open>Digit lists for the bit-counting proof\<close>

text \<open>
  A number as a list of digits of \<open>k\<close> bits each, least significant first. The steps of
  \<open>popcount32\<close> add neighbouring digits: \<open>pair_sums\<close> is one such step on the digits,
  \<open>swar\<close> is the whole computation on a non-negative integer, without the 32-bit
  conversions.
\<close>

fun digits_value :: "nat \<Rightarrow> int list \<Rightarrow> int" where
  "digits_value k [] = 0"
| "digits_value k (d # ds) = d + 2 ^ k * digits_value k ds"

fun even_digits :: "int list \<Rightarrow> int list" where
  "even_digits (a # b # ds) = a # even_digits ds"
| "even_digits [a] = [a]"
| "even_digits [] = []"

fun odd_digits :: "int list \<Rightarrow> int list" where
  "odd_digits (a # b # ds) = b # odd_digits ds"
| "odd_digits [a] = []"
| "odd_digits [] = []"

fun pair_sums :: "int list \<Rightarrow> int list" where
  "pair_sums (a # b # ds) = (a + b) # pair_sums ds"
| "pair_sums [a] = [a]"
| "pair_sums [] = []"

primrec bits_of :: "nat \<Rightarrow> int \<Rightarrow> int list" where
  "bits_of 0 u = []"
| "bits_of (Suc k) u = (u mod 2) # bits_of k (u div 2)"

definition digits_below :: "int \<Rightarrow> int list \<Rightarrow> bool" where
  "digits_below c ds = list_all (\<lambda>d. 0 \<le> d \<and> d < c) ds"

definition swar :: "int \<Rightarrow> int" where
  "swar u =
     (let u1 = u - ((u div 2) AND 0x55555555);
          u2 = (u1 AND 0x33333333) + ((u1 div 4) AND 0x33333333);
          u3 = (u2 + u2 div 16) AND 0x0f0f0f0f;
          u4 = u3 + u3 div 256;
          u5 = u4 + u4 div 65536
      in u5 AND 0x3f)"

section \<open>Invariants used in the proofs\<close>

text \<open>
  The state of the outer loop of \<open>clusterBySimilarity\<close>: the clusters found so far hold
  exactly the visited indices, each once, all below \<open>n\<close>, and every cluster is non-empty
  and strictly increasing.
\<close>

definition clusters_ok :: "nat \<Rightarrow> nat set \<Rightarrow> nat list list \<Rightarrow> bool" where
  "clusters_ok n visited clusters =
     (set (concat clusters) = visited \<and> distinct (concat clusters) \<and> visited \<subseteq> {0..<n}
      \<and> (\<forall>c \<in> set clusters. c \<noteq> [] \<and> sorted_wrt (<) c))"

section \<open>Evaluation lemmas\<close>

lemma hexDigits_small: "n < 16 \<Longrightarrow> hexDigits n = [hexDigit n]"
  by (subst hexDigits.simps) simp

lemma hexDigits_large:
  "16 \<le> n \<Longrightarrow> hexDigits n = hexDigits (n div 16) @ [hexDigit (n mod 16)]"
  by (subst hexDigits.simps) simp

lemmas toy_eval =
  sha256_def toy_host_def str_def chr_def hexBytes_def toString16_def padStart_def
  hexDigits_small hexDigits_large hexDigit_def sealData_def

lemmas js_eval = js_xor_def js_and_def js_sar_def js_shr_def toInt32_def

lemmas parse_eval =
  hexToSimHash_def slice_def parseInt16_def str_def chr_def isWhiteSpace_def
  isRadixDigit_def digitValue_def digitOf_def toUint32_def js_shr_def toInt32_def

section \<open>Chunking\<close>

lemma spec_chunks_Nil [simp]: "spec_chunks sz [] = []"
  by (simp add: spec_chunks.simps)

lemma spec_chunks_Cons:
  "s \<noteq> [] \<Longrightarrow> 0 < sz \<Longrightarrow> spec_chunks sz s = take sz s # spec_chunks sz (drop sz s)"
  by (subst spec_chunks.simps) simp

lemma chunkLoop_returns:
  assumes "0 < sz"
  shows "chunkLoop c sz i acc = Some (acc @ spec_chunks sz (drop i c))"
  using assms
proof (induction "length c - i" arbitrary: i acc rule: less_induct)
  case less
  show ?case
  proof (cases "i < length c")
    case False
    then show ?thesis by (subst chunkLoop.simps) simp
  next
    case True
    have lt: "length c - (i + sz) < length c - i"
      using True less.prems by arith
    have d: "drop i c \<noteq> []"
      using True by simp
    show ?thesis
      apply (subst chunkLoop.simps)
      apply (simp only: True if_True less.hyps [OF lt less.prems]
          spec_chunks_Cons [OF d less.prems])
      apply (simp add: slice_def add.commute)
      done
  qed
qed

lemma chunkContent_returns:
  "0 < sz \<Longrightarrow>
   chunkContent c sz = Some (if c = [] then [[]] else spec_chunks sz c)"
  by (cases "c = []") (simp_all add: chunkContent_def chunkLoop_returns spec_chunks_Cons)

lemma concat_spec_chunks: "0 < sz \<Longrightarrow> concat (spec_chunks sz s) = s"
proof (induction sz s rule: spec_chunks.induct)
  case (1 sz s)
  then show ?case by (cases "s = []") (simp_all add: spec_chunks_Cons)
qed

lemma spec_chunks_nth:
  "0 < sz \<Longrightarrow> k < length (spec_chunks sz s) \<Longrightarrow>
   spec_chunks sz s ! k = take sz (drop (k * sz) s)"
proof (induction sz s arbitrary: k rule: spec_chunks.induct)
  case (1 sz s)
  show ?case
  proof (cases "s = []")
    case True
    with 1 show ?thesis by simp
  next
    case False
    with 1 show ?thesis
      by (cases k) (simp_all add: spec_chunks_Cons add.commute)
  qed
qed

lemma spec_chunks_full:
  "0 < sz \<Longrightarrow> Suc k < length (spec_chunks sz s) \<Longrightarrow> length (spec_chunks sz s ! k) = sz"
proof (induction sz s arbitrary: k rule: spec_chunks.induct)
  case (1 sz s)
  show ?case
  proof (cases "s = []")
    case True
    with 1 show ?thesis by simp
  next
    case False
    note ne = this
    show ?thesis
    proof (cases k)
      case 0
      with 1 ne have "spec_chunks sz (drop sz s) \<noteq> []"
        by (auto simp: spec_chunks_Cons)
      then have "drop sz s \<noteq> []"
        by auto
      with 0 ne 1 show ?thesis
        by (simp add: spec_chunks_Cons)
    next
      case (Suc j)
      with 1 ne show ?thesis
        by (simp add: spec_chunks_Cons)
    qed
  qed
qed

lemma spec_chunks_nonempty:
  "0 < sz \<Longrightarrow> ch \<in> set (spec_chunks sz s) \<Longrightarrow> ch \<noteq> [] \<and> length ch \<le> sz"
proof (induction sz s rule: spec_chunks.induct)
  case (1 sz s)
  show ?case
  proof (cases "s = []")
    case True
    with 1 show ?thesis by simp
  next
    case False
    with 1 show ?thesis
      by (auto simp: spec_chunks_Cons)
  qed
qed

text \<open>
  C5. For a positive chunk size, \<open>chunkContent\<close> returns; the chunks put together give the
  content back; chunk number \<open>k\<close> is the substring of at most \<open>sz\<close> characters that
  starts at \<open>k * sz\<close>, so the chunks are consecutive and do not overlap; every chunk but
  the last has exactly \<open>sz\<close> characters and none has more; empty content gives the one
  chunk \<open>[]\<close>, never the empty sequence; and 5000 equal characters with size 4096 give
  two chunks of 4096 and 904 characters.
\<close>

theorem chunkContent_chunks:
  assumes "0 < sz"
  shows "\<exists>chunks. chunkContent c sz = Some chunks
           \<and> chunks \<noteq> []
           \<and> concat chunks = c
           \<and> (\<forall>k < length chunks. chunks ! k = take sz (drop (k * sz) c))
           \<and> (\<forall>k. Suc k < length chunks \<longrightarrow> length (chunks ! k) = sz)
           \<and> (\<forall>ch \<in> set chunks. length ch \<le> sz)
           \<and> (c = [] \<longrightarrow> chunks = [[]])
           \<and> (c \<noteq> [] \<longrightarrow> [] \<notin> set chunks)
           \<and> chunkContent (replicate 5000 x) 4096
               = Some [replicate 4096 x, replicate 904 x]"
proof -
  define chunks where "chunks = (if c = [] then [[]] else spec_chunks sz c)"
  have ret: "chunkContent c sz = Some chunks"
    using assms by (simp add: chunks_def chunkContent_returns)
  have ne: "chunks \<noteq> []"
    using assms by (simp add: chunks_def spec_chunks_Cons)
  have cc: "concat chunks = c"
    using assms by (simp add: chunks_def concat_spec_chunks)
  have nth: "\<forall>k < length chunks. chunks ! k = take sz (drop (k * sz) c)"
    using assms by (simp add: chunks_def spec_chunks_nth)
  have full: "\<forall>k. Suc k < length chunks \<longrightarrow> length (chunks ! k) = sz"
    using assms by (simp add: chunks_def spec_chunks_full)
  have le: "\<forall>ch \<in> set chunks. length ch \<le> sz"
    using spec_chunks_nonempty [OF assms] by (auto simp: chunks_def)
  have emp: "c = [] \<longrightarrow> chunks = [[]]"
    by (simp add: chunks_def)
  have nemp: "c \<noteq> [] \<longrightarrow> [] \<notin> set chunks"
    using spec_chunks_nonempty [OF assms] by (auto simp: chunks_def)
  have five: "chunkContent (replicate 5000 x) 4096 = Some [replicate 4096 x, replicate 904 x]"
    by (simp add: chunkContent_returns spec_chunks_Cons)
  from ret ne cc nth full le emp nemp five show ?thesis
    by blast
qed

theorem chunkContent_chunks_witness:
  "(0 :: nat) < 3
   \<and> chunkContent ''abcdefg'' 3 = Some [''abc'', ''def'', ''g'']
   \<and> chunkContent ([] :: char list) 3 = Some [[]]
   \<and> chunkContent (replicate 5000 CHR ''a'') 4096
       = Some [replicate 4096 CHR ''a'', replicate 904 CHR ''a'']"
proof -
  have pos: "0 < (3 :: nat)"
    by simp
  obtain chunks where c: "chunkContent ''abcdefg'' 3 = Some chunks"
    and n: "\<forall>k < length chunks. chunks ! k = take 3 (drop (k * 3) ''abcdefg'')"
    and five: "chunkContent (replicate 5000 CHR ''a'') 4096
       = Some [replicate 4096 CHR ''a'', replicate 904 CHR ''a'']"
    using chunkContent_chunks [OF pos, where c = "''abcdefg''" and x = "CHR ''a''"] by blast
  obtain chunks0 where c0: "chunkContent ([] :: char list) 3 = Some chunks0"
    and e0: "chunks0 = [[]]"
    using chunkContent_chunks [OF pos, where c = "[] :: char list" and x = "CHR ''a''"] by blast
  have "chunkContent ''abcdefg'' 3 = Some [''abc'', ''def'', ''g'']"
    by (simp add: chunkContent_returns spec_chunks_Cons)
  with c0 e0 five show ?thesis
    by simp
qed


section \<open>Merkle root\<close>

lemma pairLoop_spec_aux:
  "i \<le> length level \<Longrightarrow>
   pairLoop h level i acc =
     (case spec_pairs (sha256 h) (drop i level) of
        Inl e \<Rightarrow> Inl e
      | Inr rest \<Rightarrow> Inr (acc @ rest))"
proof (induction h level i acc rule: pairLoop.induct)
  case (1 h level i nextLevel)
  show ?case
  proof (cases "i < length level")
    case False
    with "1.prems" show ?thesis
      by (simp add: pairLoop.simps)
  next
    case True
    note inr = this
    show ?thesis
    proof (cases "i + 1 < length level")
      case True
      then have d: "drop i level = level ! i # level ! (i + 1) # drop (i + 2) level"
        by (metis Cons_nth_drop_Suc Suc_eq_plus1 add_2_eq_Suc' inr)
      show ?thesis
      proof (cases "sha256 h (level ! i @ level ! (i + 1))")
        case (Inl e)
        with inr True d show ?thesis
          by (subst pairLoop.simps) simp
      next
        case (Inr parent)
        have "i + 2 \<le> length level"
          using True by simp
        from "1.IH"(1) [OF inr True Inr this] Inr inr True d show ?thesis
          by (subst pairLoop.simps) (simp split: sum.splits)
      qed
    next
      case False
      then have d: "drop i level = [level ! i]"
        using inr by (metis Cons_nth_drop_Suc Suc_eq_plus1 drop_all not_less)
      have p: "pairLoop h level (i + 2) (nextLevel @ [level ! i]) = Inr (nextLevel @ [level ! i])"
        using False by (subst pairLoop.simps) simp
      from p inr False d show ?thesis
        by (subst pairLoop.simps) simp
    qed
  qed
qed

lemma pairLoop_spec: "pairLoop h level 0 [] = spec_pairs (sha256 h) level"
  by (simp add: pairLoop_spec_aux split: sum.splits)

lemma whileLoop_spec: "whileLoop h level = spec_reduce (sha256 h) level"
proof (induction h level rule: whileLoop.induct)
  case (1 h level)
  show ?case
  proof (cases "1 < length level")
    case False
    then show ?thesis
      by (subst whileLoop.simps, subst spec_reduce.simps) simp
  next
    case True
    show ?thesis
    proof (cases "spec_pairs (sha256 h) level")
      case (Inl e)
      with True show ?thesis
        by (subst whileLoop.simps, subst spec_reduce.simps) (simp add: pairLoop_spec)
    next
      case (Inr nextLevel)
      with True "1.IH" [OF True, of nextLevel] show ?thesis
        by (subst whileLoop.simps, subst spec_reduce.simps) (simp add: pairLoop_spec)
    qed
  qed
qed

lemma spec_reduce_singleton:
  "level \<noteq> [] \<Longrightarrow> spec_reduce H level = Inr final \<Longrightarrow> \<exists>root. final = [root]"
proof (induction H level rule: spec_reduce.induct)
  case (1 H level)
  show ?case
  proof (cases "length level \<le> 1")
    case True
    with "1.prems" show ?thesis
      by (subst (asm) spec_reduce.simps) (cases level; auto)
  next
    case False
    with "1.prems" obtain nextLevel where n: "spec_pairs H level = Inr nextLevel"
      and r: "spec_reduce H nextLevel = Inr final"
      by (subst (asm) spec_reduce.simps) (auto split: sum.splits)
    from length_spec_pairs [OF n] False have "nextLevel \<noteq> []"
      by auto
    from "1.IH" [OF False n this r] show ?thesis .
  qed
qed


lemma hashAll_map:
  "hashAll h chunks = Inr leaves \<Longrightarrow> map (sha256 h) chunks = map Inr leaves"
  by (induction chunks arbitrary: leaves) (auto split: sum.splits)

lemma hashAll_nonempty:
  "hashAll h chunks = Inr leaves \<Longrightarrow> chunks \<noteq> [] \<Longrightarrow> leaves \<noteq> []"
  by (cases chunks) (auto split: sum.splits)

lemma chunkContent_4096:
  "chunkContent c 4096 = Some (if c = [] then [[]] else spec_chunks 4096 c)"
  by (rule chunkContent_returns) simp

lemma chunkContent_single:
  "length c \<le> 4096 \<Longrightarrow> chunkContent c 4096 = Some [c]"
  by (cases "c = []") (simp_all add: chunkContent_4096 spec_chunks_Cons)

lemma buildMerkleRoot_single:
  assumes "length c \<le> 4096"
  shows "buildMerkleRoot h c = Some (sha256 h c)"
proof -
  have "whileLoop h [leaf] = Inr [leaf]" for leaf
    by (subst whileLoop.simps) simp
  then show ?thesis
    using assms by (simp add: buildMerkleRoot_def chunkContent_single split: sum.splits)
qed

text \<open>
  C4. \<open>buildMerkleRoot\<close> cuts the content into chunks of 4096 characters (at least one),
  hashes each chunk into a leaf, and reduces the leaves as \<open>spec_reduce\<close> does: adjacent
  hashes are paired from the left, a pair becomes the hash of the two hex strings put
  together, an odd last node goes up unchanged, until one hash remains, which is the root.
  A rejected digest is passed on. Content of at most 4096 characters is one chunk, and
  its root is that chunk's leaf hash.
\<close>

theorem buildMerkleRoot_tree:
  "\<exists>chunks. chunkContent c 4096 = Some chunks \<and> chunks \<noteq> []
     \<and> (\<forall>e. hashAll h chunks = Inl e \<longrightarrow> buildMerkleRoot h c = Some (Inl e))
     \<and> (\<forall>leaves. hashAll h chunks = Inr leaves \<longrightarrow>
           map (sha256 h) chunks = map Inr leaves
           \<and> (\<forall>e. spec_reduce (sha256 h) leaves = Inl e \<longrightarrow>
                  buildMerkleRoot h c = Some (Inl e))
           \<and> (\<forall>final. spec_reduce (sha256 h) leaves = Inr final \<longrightarrow>
                  (\<exists>root. final = [root] \<and> buildMerkleRoot h c = Some (Inr root))))
     \<and> (length c \<le> 4096 \<longrightarrow> chunks = [c] \<and> buildMerkleRoot h c = Some (sha256 h c))"
proof -
  define chunks where "chunks = (if c = [] then [[]] else spec_chunks 4096 c)"
  have ret: "chunkContent c 4096 = Some chunks"
    by (simp add: chunks_def chunkContent_4096)
  have ne: "chunks \<noteq> []"
    by (simp add: chunks_def spec_chunks_Cons)
  have err: "\<forall>e. hashAll h chunks = Inl e \<longrightarrow> buildMerkleRoot h c = Some (Inl e)"
    by (simp add: buildMerkleRoot_def ret)
  have tree: "map (sha256 h) chunks = map Inr leaves
           \<and> (\<forall>e. spec_reduce (sha256 h) leaves = Inl e \<longrightarrow>
                  buildMerkleRoot h c = Some (Inl e))
           \<and> (\<forall>final. spec_reduce (sha256 h) leaves = Inr final \<longrightarrow>
                  (\<exists>root. final = [root] \<and> buildMerkleRoot h c = Some (Inr root)))"
    if l: "hashAll h chunks = Inr leaves" for leaves
  proof -
    have lne: "leaves \<noteq> []"
      using hashAll_nonempty [OF l ne] .
    have "\<exists>root. final = [root] \<and> buildMerkleRoot h c = Some (Inr root)"
      if f: "spec_reduce (sha256 h) leaves = Inr final" for final
    proof -
      from spec_reduce_singleton [OF lne f] obtain root where "final = [root]" ..
      with f l show ?thesis
        by (simp add: buildMerkleRoot_def ret whileLoop_spec)
    qed
    moreover have "buildMerkleRoot h c = Some (Inl e)"
      if "spec_reduce (sha256 h) leaves = Inl e" for e
      using that l by (simp add: buildMerkleRoot_def ret whileLoop_spec)
    ultimately show ?thesis
      using hashAll_map [OF l] by blast
  qed
  have single: "length c \<le> 4096 \<longrightarrow> chunks = [c] \<and> buildMerkleRoot h c = Some (sha256 h c)"
    using ret by (auto simp: chunkContent_single buildMerkleRoot_single)
  from ret ne err tree single show ?thesis
    by blast
qed


lemma toy_chunks:
  "chunkContent (replicate 9000 (chr CHR ''a'')) 4096
     = Some [replicate 4096 (chr CHR ''a''), replicate 4096 (chr CHR ''a''),
             replicate 808 (chr CHR ''a'')]"
  by (simp add: chunkContent_4096 spec_chunks_Cons)

lemma toy_leaves:
  "hashAll toy_host [replicate 4096 (chr CHR ''a''), replicate 4096 (chr CHR ''a''),
             replicate 808 (chr CHR ''a'')] = Inr [str ''0061'', str ''0061'', str ''2861'']"
  by (simp add: toy_eval)

lemma toy_reduce:
  "spec_reduce (sha256 toy_host) [str ''0061'', str ''0061'', str ''2861''] = Inr [str ''0830'']"
  apply (subst spec_reduce.simps)
  apply (simp add: toy_eval)
  apply (subst spec_reduce.simps)
  apply (simp add: toy_eval)
  apply (subst spec_reduce.simps)
  apply simp
  done

theorem buildMerkleRoot_tree_witness:
  "buildMerkleRoot toy_host (replicate 9000 (chr CHR ''a'')) = Some (Inr (str ''0830''))
   \<and> buildMerkleRoot toy_host (str ''ab'') = Some (Inr (str ''0261''))"
proof -
  have a: "buildMerkleRoot toy_host (replicate 9000 (chr CHR ''a'')) = Some (Inr (str ''0830''))"
    using buildMerkleRoot_tree [of "replicate 9000 (chr CHR ''a'')" toy_host]
      toy_leaves toy_reduce by (auto simp: toy_chunks)
  have "sha256 toy_host (str ''ab'') = Inr (str ''0261'')"
    by (simp add: toy_eval)
  then have b: "buildMerkleRoot toy_host (str ''ab'') = Some (Inr (str ''0261''))"
    using buildMerkleRoot_tree [of "str ''ab''" toy_host] by (auto simp: str_def)
  from a b show ?thesis
    by simp
qed


section \<open>Seals\<close>

text \<open>
  C1. A seal that \<open>createTimeLockSeal\<close> returned for content \<open>c\<close> at clock value
  \<open>t0\<close> verifies against \<open>c\<close> at every clock value \<open>t1 \<ge> t0\<close>: the result is
  \<open>{valid: true}\<close> with no reason. Creation returns a seal whenever the digest primitive
  does not reject.
\<close>

theorem seal_round_trip:
  assumes "t0 \<le> t1"
  shows "(\<forall>s. createTimeLockSeal h t0 nonceArray c = Some (Inr s) \<longrightarrow>
            verifyTimeLockSeal h t1 c s = Some (Inr \<lparr>valid = True, reason = None\<rparr>))
         \<and> ((\<forall>bs. \<exists>d. digest h bs = Inr d) \<longrightarrow>
            (\<exists>s. createTimeLockSeal h t0 nonceArray c = Some (Inr s)))"
proof (intro conjI allI impI)
  fix s
  assume "createTimeLockSeal h t0 nonceArray c = Some (Inr s)"
  then show "verifyTimeLockSeal h t1 c s = Some (Inr \<lparr>valid = True, reason = None\<rparr>)"
    using assms
    by (auto simp: createTimeLockSeal_def verifyTimeLockSeal_def tryVerify_def Let_def
        split: option.splits sum.splits)
next
  assume total: "\<forall>bs. \<exists>d. digest h bs = Inr d"
  have sha: "\<exists>x. sha256 h data = Inr x" for data
    using total by (metis (mono_tags, lifting) sha256_def sum.simps(6))
  have pairs: "\<exists>nextLevel. spec_pairs (sha256 h) level = Inr nextLevel" for level
  proof (induction "sha256 h" level rule: spec_pairs.induct)
    case (1 left right rest)
    then show ?case
      using sha [of "left @ right"] by auto
  qed simp_all
  have reduce: "\<exists>final. spec_reduce (sha256 h) level = Inr final" for level
  proof (induction "sha256 h" level rule: spec_reduce.induct)
    case (1 level)
    show ?case
    proof (cases "length level \<le> 1")
      case True
      then show ?thesis
        by (subst spec_reduce.simps) simp
    next
      case False
      from pairs obtain nextLevel where n: "spec_pairs (sha256 h) level = Inr nextLevel" ..
      from "1.hyps" [OF False n] n False show ?thesis
        by (subst spec_reduce.simps) simp
    qed
  qed
  have leaves: "\<exists>leaves. hashAll h chunks = Inr leaves" for chunks
  proof (induction chunks)
    case (Cons chunk chunks)
    then show ?case
      using sha [of chunk] by auto
  qed simp
  have "\<exists>root. buildMerkleRoot h c = Some (Inr root)"
  proof -
    obtain lv where lv: "hashAll h (if c = [] then [[]] else spec_chunks 4096 c) = Inr lv"
      using leaves by blast
    obtain final where "whileLoop h lv = Inr final"
      using reduce [of lv] by (auto simp: whileLoop_spec)
    with lv show ?thesis
      by (simp add: buildMerkleRoot_def chunkContent_4096)
  qed
  then obtain root where root: "buildMerkleRoot h c = Some (Inr root)" ..
  obtain sh where "sha256 h (sealData h root t0 (hexBytes nonceArray)) = Inr sh"
    using sha by blast
  with root show "\<exists>s. createTimeLockSeal h t0 nonceArray c = Some (Inr s)"
    by (simp add: createTimeLockSeal_def)
qed



lemma toy_root: "buildMerkleRoot toy_host (str ''ab'') = Some (Inr (str ''0261''))"
  by (subst buildMerkleRoot_single) (simp_all add: toy_eval)

lemma toy_root3: "buildMerkleRoot toy_host (str ''abc'') = Some (Inr (str ''0361''))"
  by (subst buildMerkleRoot_single) (simp_all add: toy_eval)

lemma toy_root0: "buildMerkleRoot toy_host [] = Some (Inl ())"
  by (subst buildMerkleRoot_single) (simp_all add: toy_eval)

lemma toy_create:
  "createTimeLockSeal toy_host 1000 toy_nonce (str ''ab'') = Some (Inr toy_seal)"
  by (simp add: createTimeLockSeal_def toy_root) (simp add: toy_eval toy_seal_def toy_nonce_def)

lemma toy_sealHash:
  "sha256 toy_host (contentHash toy_seal @ str '':'' @ numToString toy_host (timestamp toy_seal)
      @ str '':'' @ nonce toy_seal) = Inr (str ''2930'')"
  by (simp add: toy_eval toy_seal_def)

theorem seal_round_trip_witness:
  "(1000 :: int) \<le> 2000
   \<and> createTimeLockSeal toy_host 1000 toy_nonce (str ''ab'') = Some (Inr toy_seal)
   \<and> verifyTimeLockSeal toy_host 2000 (str ''ab'') toy_seal
       = Some (Inr \<lparr>valid = True, reason = None\<rparr>)"
proof -
  have le: "(1000 :: int) \<le> 2000"
    by simp
  from seal_round_trip [OF le, of toy_host toy_nonce "str ''ab''"] toy_create le
  show ?thesis
    by simp
qed

lemma buildMerkleRoot_returns: "\<exists>r. buildMerkleRoot h c = Some r"
  by (simp add: buildMerkleRoot_def chunkContent_4096)

text \<open>
  C2. \<open>verifyTimeLockSeal\<close> always returns a result and never throws. The result
  follows the case analysis in this order: a recomputed root different from
  \<open>contentHash\<close> gives "Content has been modified"; otherwise a recomputed seal hash
  different from \<open>sealHash\<close> gives "Seal has been tampered with"; otherwise a timestamp
  after the clock value gives "Timestamp is in the future"; otherwise the seal is valid.
  A digest that rejects, in the root or in the seal hash, gives "Verification error".
\<close>

theorem verifyTimeLockSeal_cases:
  "(\<exists>r. verifyTimeLockSeal h now c s = Some (Inr r))
   \<and> (\<forall>root. buildMerkleRoot h c = Some (Inr root) \<and> root \<noteq> contentHash s \<longrightarrow>
          verifyTimeLockSeal h now c s
            = Some (Inr \<lparr>valid = False, reason = Some (str ''Content has been modified'')\<rparr>))
   \<and> (\<forall>expected.
          buildMerkleRoot h c = Some (Inr (contentHash s))
          \<and> sha256 h (contentHash s @ str '':'' @ numToString h (timestamp s) @ str '':'' @ nonce s)
              = Inr expected
          \<and> expected \<noteq> sealHash s \<longrightarrow>
          verifyTimeLockSeal h now c s
            = Some (Inr \<lparr>valid = False, reason = Some (str ''Seal has been tampered with'')\<rparr>))
   \<and> (buildMerkleRoot h c = Some (Inr (contentHash s))
        \<and> sha256 h (contentHash s @ str '':'' @ numToString h (timestamp s) @ str '':'' @ nonce s)
            = Inr (sealHash s)
        \<and> timestamp s > now \<longrightarrow>
          verifyTimeLockSeal h now c s
            = Some (Inr \<lparr>valid = False, reason = Some (str ''Timestamp is in the future'')\<rparr>))
   \<and> (buildMerkleRoot h c = Some (Inr (contentHash s))
        \<and> sha256 h (contentHash s @ str '':'' @ numToString h (timestamp s) @ str '':'' @ nonce s)
            = Inr (sealHash s)
        \<and> \<not> timestamp s > now \<longrightarrow>
          verifyTimeLockSeal h now c s = Some (Inr \<lparr>valid = True, reason = None\<rparr>))
   \<and> (\<forall>e. buildMerkleRoot h c = Some (Inl e)
             \<or> (buildMerkleRoot h c = Some (Inr (contentHash s))
                 \<and> sha256 h (contentHash s @ str '':'' @ numToString h (timestamp s)
                              @ str '':'' @ nonce s) = Inl e) \<longrightarrow>
          verifyTimeLockSeal h now c s
            = Some (Inr \<lparr>valid = False, reason = Some (str ''Verification error'')\<rparr>))"
proof -
  obtain r where r: "buildMerkleRoot h c = Some r"
    using buildMerkleRoot_returns by blast
  show ?thesis
    by (cases r;
        cases "sha256 h (contentHash s @ str '':'' @ numToString h (timestamp s) @ str '':'' @ nonce s)")
       (simp_all add: r verifyTimeLockSeal_def tryVerify_def sealData_def)
qed


theorem verifyTimeLockSeal_cases_witness:
  "verifyTimeLockSeal toy_host 2000 (str ''ab'') toy_seal
     = Some (Inr \<lparr>valid = True, reason = None\<rparr>)
   \<and> verifyTimeLockSeal toy_host 500 (str ''ab'') toy_seal
     = Some (Inr \<lparr>valid = False, reason = Some (str ''Timestamp is in the future'')\<rparr>)
   \<and> verifyTimeLockSeal toy_host 2000 (str ''ab'') (toy_seal\<lparr>sealHash := str ''2931''\<rparr>)
     = Some (Inr \<lparr>valid = False, reason = Some (str ''Seal has been tampered with'')\<rparr>)
   \<and> verifyTimeLockSeal toy_host 2000 (str ''abc'') toy_seal
     = Some (Inr \<lparr>valid = False, reason = Some (str ''Content has been modified'')\<rparr>)
   \<and> verifyTimeLockSeal toy_host 2000 [] toy_seal
     = Some (Inr \<lparr>valid = False, reason = Some (str ''Verification error'')\<rparr>)"
proof -
  have ch: "contentHash toy_seal = str ''0261''" and sh: "sealHash toy_seal = str ''2930''"
    and ts: "timestamp toy_seal = 1000"
    by (simp_all add: toy_seal_def)
  have a: "verifyTimeLockSeal toy_host 2000 (str ''ab'') toy_seal
     = Some (Inr \<lparr>valid = True, reason = None\<rparr>)"
    using verifyTimeLockSeal_cases [of toy_host 2000 "str ''ab''" toy_seal]
      toy_root toy_sealHash by (simp add: ch sh ts)
  have b: "verifyTimeLockSeal toy_host 500 (str ''ab'') toy_seal
     = Some (Inr \<lparr>valid = False, reason = Some (str ''Timestamp is in the future'')\<rparr>)"
    using verifyTimeLockSeal_cases [of toy_host 500 "str ''ab''" toy_seal]
      toy_root toy_sealHash by (simp add: ch sh ts)
  have ne: "str ''2930'' \<noteq> str ''2931''" "str ''0361'' \<noteq> str ''0261''"
    by (simp_all add: str_def chr_def)
  have c: "verifyTimeLockSeal toy_host 2000 (str ''ab'') (toy_seal\<lparr>sealHash := str ''2931''\<rparr>)
     = Some (Inr \<lparr>valid = False, reason = Some (str ''Seal has been tampered with'')\<rparr>)"
    using verifyTimeLockSeal_cases [of toy_host 2000 "str ''ab''" "toy_seal\<lparr>sealHash := str ''2931''\<rparr>"]
      toy_root toy_sealHash ne by (simp add: ch sh ts)
  have d: "verifyTimeLockSeal toy_host 2000 (str ''abc'') toy_seal
     = Some (Inr \<lparr>valid = False, reason = Some (str ''Content has been modified'')\<rparr>)"
    using verifyTimeLockSeal_cases [of toy_host 2000 "str ''abc''" toy_seal]
      toy_root3 ne by (simp add: ch)
  have e: "verifyTimeLockSeal toy_host 2000 [] toy_seal
     = Some (Inr \<lparr>valid = False, reason = Some (str ''Verification error'')\<rparr>)"
    using verifyTimeLockSeal_cases [of toy_host 2000 "[]" toy_seal]
      toy_root0 by simp
  from a b c d e show ?thesis
    by simp
qed



section \<open>Token hash\<close>

text \<open>
  C3. The claim is that \<open>fnv1a64\<close> is the standard 64-bit FNV-1a hash, split into
  halves. On the token "ab" the two differ: the low half of the offset basis in the source
  is \<open>0x62b82175\<close> where the standard has \<open>0x84222325\<close>, and the high half is
  multiplied by \<open>0x100\<close> where the product needs the low half.
\<close>

theorem fnv1a64_not_standard:
  "fnv1a64 (str ''ab'') = \<lparr>high = 584443610, low = 1459185786\<rparr>
   \<and> spec_halves (spec_fnv1a64 (str ''ab'')) = \<lparr>high = 144458759, low = 3041237098\<rparr>
   \<and> fnv1a64 (str ''ab'') \<noteq> spec_halves (spec_fnv1a64 (str ''ab''))"
proof -
  have a: "fnv1a64 (str ''ab'') = \<lparr>high = 584443610, low = 1459185786\<rparr>"
    by (simp add: fnv1a64_def str_def chr_def charCode_def js_eval Let_def
        FNV_PRIME_LOW_def FNV_PRIME_HIGH_def FNV_OFFSET_LOW_def FNV_OFFSET_HIGH_def)
  have b: "spec_halves (spec_fnv1a64 (str ''ab'')) = \<lparr>high = 144458759, low = 3041237098\<rparr>"
    by (simp add: spec_halves_def spec_fnv1a64_def str_def chr_def)
  from a b show ?thesis
    by simp
qed


section \<open>Hexadecimal form of a fingerprint\<close>

lemma digit_cases:
  assumes "0 \<le> d" and "d < (16 :: int)"
  shows "d = 0 \<or> d = 1 \<or> d = 2 \<or> d = 3 \<or> d = 4 \<or> d = 5 \<or> d = 6 \<or> d = 7 \<or> d = 8
         \<or> d = 9 \<or> d = 10 \<or> d = 11 \<or> d = 12 \<or> d = 13 \<or> d = 14 \<or> d = 15"
  using assms by presburger

lemma hexDigit_table:
  assumes "0 \<le> d" and "d < 16"
  shows "hexDigit d = chr (''0123456789abcdef'' ! nat d)"
  using digit_cases [OF assms] by (elim disjE) (simp_all add: hexDigit_def chr_def)

lemma hexDigit_value:
  assumes "0 \<le> d" and "d < 16"
  shows "digitValue (hexDigit d) = Some d \<and> isLowerHex (hexDigit d)"
  using digit_cases [OF assms] by (elim disjE) (simp_all add: hexDigit_def digitValue_def isLowerHex_def)

lemma isLowerHex_uint:
  "isLowerHex c \<longleftrightarrow> (48 \<le> uint c \<and> uint c \<le> 57) \<or> (97 \<le> uint c \<and> uint c \<le> 102)"
  by (simp add: isLowerHex_def word_le_def)

lemma isLowerHex_plain:
  assumes "isLowerHex c"
  shows "\<not> isWhiteSpace c" and "c \<noteq> chr CHR ''-''" and "c \<noteq> chr CHR ''+''"
    and "c \<noteq> chr CHR ''x''" and "c \<noteq> chr CHR ''X''" and "isRadixDigit 16 c"
proof -
  from assms have u: "(48 \<le> uint c \<and> uint c \<le> 57) \<or> (97 \<le> uint c \<and> uint c \<le> 102)"
    by (simp add: isLowerHex_uint)
  then show "\<not> isWhiteSpace c"
    by (auto simp: isWhiteSpace_def word_le_def)
  from u show "c \<noteq> chr CHR ''-''" "c \<noteq> chr CHR ''+''" "c \<noteq> chr CHR ''x''" "c \<noteq> chr CHR ''X''"
    by (auto simp: chr_def)
  from u show "isRadixDigit 16 c"
    by (auto simp: isRadixDigit_def digitValue_def word_le_def)
qed

lemma parseInt16_plain:
  assumes "s \<noteq> []" and "list_all isLowerHex s"
  shows "parseInt16 s = Some (hexval s)"
proof -
  obtain a rest where s: "s = a # rest"
    using assms(1) by (cases s) auto
  have a: "isLowerHex a"
    using assms(2) s by simp
  have all: "takeWhile (isRadixDigit 16) s = s"
    using assms(2) by (simp add: takeWhile_eq_all_conv list_all_iff isLowerHex_plain)
  have no_prefix: "\<not> (length s \<ge> 2 \<and> (take 2 s = str ''0x'' \<or> take 2 s = str ''0X''))"
  proof (cases rest)
    case Nil
    with s show ?thesis by simp
  next
    case (Cons b rest')
    with assms(2) s have "isLowerHex b"
      by simp
    then have "b \<noteq> chr CHR ''x''" "b \<noteq> chr CHR ''X''"
      by (rule isLowerHex_plain)+
    with s Cons show ?thesis
      by (simp add: str_def)
  qed
  have d: "dropWhile isWhiteSpace s = s"
    using s isLowerHex_plain(1) [OF a] by simp
  have h: "hd s \<noteq> chr CHR ''-''" "hd s \<noteq> chr CHR ''+''"
    using s isLowerHex_plain(2,3) [OF a] by simp_all
  show ?thesis
    unfolding parseInt16_def Let_def d
    using h assms(1) by (simp add: hexval_def if_not_P [OF no_prefix] all)
qed

lemma spec_hex_lower: "0 \<le> n \<Longrightarrow> list_all isLowerHex (spec_hex k n)"
proof (induction k arbitrary: n)
  case 0
  then show ?case by simp
next
  case (Suc k)
  have "0 \<le> n mod 16" "n mod 16 < 16" "0 \<le> n div 16"
    using Suc.prems by simp_all
  with Suc.IH [of "n div 16"] show ?case
    using hexDigit_value [of "n mod 16"] hexDigit_table [of "n mod 16"] by simp
qed

lemma length_spec_hex [simp]: "length (spec_hex k n) = k"
  by (induction k arbitrary: n) simp_all

lemma hexval_spec_hex: "0 \<le> n \<Longrightarrow> hexval (spec_hex k n) = n mod 16 ^ k"
proof (induction k arbitrary: n)
  case 0
  then show ?case by (simp add: hexval_def)
next
  case (Suc k)
  have r: "0 \<le> n mod 16" "n mod 16 < 16" "0 \<le> n div 16"
    using Suc.prems by simp_all
  have "digitValue (chr (''0123456789abcdef'' ! nat (n mod 16))) = Some (n mod 16)"
    using hexDigit_value [OF r(1,2)] hexDigit_table [OF r(1,2)] by simp
  then have "hexval (spec_hex (Suc k) n) = 16 * hexval (spec_hex k (n div 16)) + n mod 16"
    by (simp add: hexval_def digitOf_def)
  also have "\<dots> = 16 * ((n div 16) mod 16 ^ k) + n mod 16"
    using Suc.IH [OF r(3)] by simp
  also have "\<dots> = n mod 16 ^ Suc k"
    using zmod_zmult2_eq [of "16 ^ k" n 16] by simp
  finally show ?case .
qed

lemma padStart_hexDigits_step:
  assumes "0 \<le> n" and "1 \<le> k"
  shows "padStart (hexDigits n) (Suc k) (chr CHR ''0'')
           = padStart (hexDigits (n div 16)) k (chr CHR ''0'') @ [hexDigit (n mod 16)]"
proof (cases "n < 16")
  case True
  then have "hexDigits n = [hexDigit n]" "hexDigits (n div 16) = [hexDigit 0]"
    using assms by (simp_all add: hexDigits_small)
  moreover have "hexDigit 0 = chr CHR ''0''"
    by (simp add: hexDigit_def chr_def)
  moreover have "replicate (k - Suc 0) (chr CHR ''0'') @ [chr CHR ''0''] = replicate k (chr CHR ''0'')"
    using assms(2) by (cases k) (simp_all add: replicate_append_same)
  ultimately show ?thesis
    using True assms by (simp add: padStart_def)
next
  case False
  then have "hexDigits n = hexDigits (n div 16) @ [hexDigit (n mod 16)]"
    by (simp add: hexDigits_large)
  then show ?thesis
    by (simp add: padStart_def)
qed

lemma padStart_hexDigits:
  "0 \<le> n \<Longrightarrow> n < 16 ^ k \<Longrightarrow> 1 \<le> k \<Longrightarrow>
   padStart (hexDigits n) k (chr CHR ''0'') = spec_hex k n"
proof (induction k arbitrary: n)
  case 0
  then show ?case by simp
next
  case (Suc k)
  have r: "0 \<le> n mod 16" "n mod 16 < 16" "0 \<le> n div 16"
    using Suc.prems by simp_all
  show ?case
  proof (cases "k = 0")
    case True
    with Suc.prems show ?thesis
      using hexDigit_table [OF r(1,2)] by (simp add: hexDigits_small padStart_def)
  next
    case False
    then have k: "1 \<le> k"
      by simp
    have "n div 16 < 16 ^ k"
      using Suc.prems by (simp add: div_less_iff_less_mult mult.commute)
    from Suc.IH [OF r(3) this k] padStart_hexDigits_step [OF Suc.prems(1) k]
    show ?thesis
      using hexDigit_table [OF r(1,2)] by simp
  qed
qed

lemma toUint32_id: "is_uint32 n \<Longrightarrow> toUint32 (Some n) = n"
  by (simp add: toUint32_def js_shr_def toInt32_def is_uint32_def uint_word_of_int take_bit_eq_mod)

lemma parse_spec_hex8:
  assumes "is_uint32 n"
  shows "toUint32 (parseInt16 (spec_hex 8 n)) = n"
proof -
  have n: "0 \<le> n" "n < 16 ^ 8"
    using assms by (simp_all add: is_uint32_def)
  have "spec_hex 8 n \<noteq> []"
    using length_spec_hex [of 8 n] by (metis length_0_conv zero_neq_numeral)
  then have "parseInt16 (spec_hex 8 n) = Some (hexval (spec_hex 8 n))"
    using spec_hex_lower [OF n(1)] by (rule parseInt16_plain)
  also have "hexval (spec_hex 8 n) = n"
    using n by (simp add: hexval_spec_hex)
  finally show ?thesis
    using assms by (simp add: toUint32_id)
qed

lemma simHashToHex_spec:
  assumes "is_uint32 (high f)" and "is_uint32 (low f)"
  shows "simHashToHex f = spec_hex 8 (high f) @ spec_hex 8 (low f)"
proof -
  have "padStart (toString16 n) 8 (chr CHR ''0'') = spec_hex 8 n" if "is_uint32 n" for n
  proof -
    from that have n: "0 \<le> n" "n < 16 ^ 8"
      by (simp_all add: is_uint32_def)
    then show ?thesis
      using padStart_hexDigits [OF n] by (simp add: toString16_def)
  qed
  with assms show ?thesis
    by (simp add: simHashToHex_def)
qed

text \<open>
  C7. For a fingerprint whose halves are unsigned 32-bit values, \<open>simHashToHex\<close> gives
  the 8 zero-padded lowercase hexadecimal digits of the high half followed by those of the
  low half, 16 characters in all, and \<open>hexToSimHash\<close> gives the fingerprint back. For a
  string whose length is not 16, \<open>hexToSimHash\<close> gives the zero fingerprint.
\<close>

theorem simHashToHex_round_trip:
  assumes "is_uint32 (high f)" and "is_uint32 (low f)"
  shows "simHashToHex f = spec_hex 8 (high f) @ spec_hex 8 (low f)
         \<and> spec_valid_hex16 (simHashToHex f)
         \<and> hexToSimHash (simHashToHex f) = f
         \<and> (\<forall>hex. length hex \<noteq> 16 \<longrightarrow> hexToSimHash hex = \<lparr>high = 0, low = 0\<rparr>)"
proof -
  have s: "simHashToHex f = spec_hex 8 (high f) @ spec_hex 8 (low f)"
    using assms by (rule simHashToHex_spec)
  have v: "spec_valid_hex16 (simHashToHex f)"
    using assms spec_hex_lower [of "high f" 8] spec_hex_lower [of "low f" 8]
    by (simp add: s spec_valid_hex16_def is_uint32_def)
  have "hexToSimHash (simHashToHex f) = \<lparr>high = high f, low = low f\<rparr>"
    using assms by (simp add: s hexToSimHash_def slice_def parse_spec_hex8)
  then have r: "hexToSimHash (simHashToHex f) = f"
    by simp
  have z: "\<forall>hex. length hex \<noteq> 16 \<longrightarrow> hexToSimHash hex = \<lparr>high = 0, low = 0\<rparr>"
    by (simp add: hexToSimHash_def)
  from s v r z show ?thesis
    by blast
qed

theorem simHashToHex_round_trip_witness:
  "is_uint32 171 \<and> is_uint32 4042322161
   \<and> simHashToHex \<lparr>high = 171, low = 4042322161\<rparr> = str ''000000abf0f0f0f1''
   \<and> hexToSimHash (str ''000000abf0f0f0f1'') = \<lparr>high = 171, low = 4042322161\<rparr>
   \<and> hexToSimHash (str ''abc'') = \<lparr>high = 0, low = 0\<rparr>"
proof -
  have h: "is_uint32 (high \<lparr>high = 171, low = 4042322161\<rparr>)"
    and l: "is_uint32 (low \<lparr>high = 171, low = 4042322161\<rparr>)"
    by (simp_all add: is_uint32_def)
  have e: "spec_hex 8 (high \<lparr>high = 171, low = 4042322161\<rparr>)
           @ spec_hex 8 (low \<lparr>high = 171, low = 4042322161\<rparr>) = str ''000000abf0f0f0f1''"
    by (simp add: eval_nat_numeral str_def)
  note t = simHashToHex_round_trip [OF h l]
  from t have s: "simHashToHex \<lparr>high = 171, low = 4042322161\<rparr> = str ''000000abf0f0f0f1''"
    unfolding e by (rule conjunct1)
  from t have r: "hexToSimHash (str ''000000abf0f0f0f1'') = \<lparr>high = 171, low = 4042322161\<rparr>"
    unfolding s e by blast
  from t have "length (str ''abc'') \<noteq> 16 \<longrightarrow> hexToSimHash (str ''abc'') = \<lparr>high = 0, low = 0\<rparr>"
    by blast
  then have z: "hexToSimHash (str ''abc'') = \<lparr>high = 0, low = 0\<rparr>"
    by (simp add: str_def)
  from h l s r z show ?thesis
    by simp
qed


text \<open>
  C8, as stated, fails: the string "1zzzzzzzzzzzzzzz" is not 16 lowercase hexadecimal
  digits, and \<open>hexToSimHash\<close> gives \<open>{high: 1, low: 0}\<close> for it, since \<open>parseInt\<close>
  reads the longest prefix of digits.
\<close>

theorem hexToSimHash_malformed_counterexample:
  "\<not> spec_valid_hex16 (str ''1zzzzzzzzzzzzzzz'')
   \<and> hexToSimHash (str ''1zzzzzzzzzzzzzzz'') = \<lparr>high = 1, low = 0\<rparr>
   \<and> hexToSimHash (str ''1zzzzzzzzzzzzzzz'') \<noteq> \<lparr>high = 0, low = 0\<rparr>"
proof -
  have a: "\<not> spec_valid_hex16 (str ''1zzzzzzzzzzzzzzz'')"
    by (simp add: spec_valid_hex16_def isLowerHex_def str_def chr_def)
  have b: "hexToSimHash (str ''1zzzzzzzzzzzzzzz'') = \<lparr>high = 1, low = 0\<rparr>"
    by (simp add: parse_eval)
  from a b show ?thesis
    by simp
qed

lemma js_shr_0_range: "is_uint32 (js_shr n 0)"
proof -
  have "uint (word_of_int n :: 32 word) < 2 ^ 32"
    using uint_bounded [of "word_of_int n :: 32 word"] by simp
  then show ?thesis
    by (simp add: js_shr_def toInt32_def is_uint32_def)
qed

lemma toUint32_range: "is_uint32 (toUint32 v)"
  by (cases v) (simp_all add: toUint32_def js_shr_0_range, simp add: is_uint32_def)

text \<open>
  C8, amended. \<open>hexToSimHash\<close> returns the zero fingerprint for every string whose
  length is not 16, and for every string it returns a fingerprint whose halves are
  unsigned 32-bit values: it has no failing branch.
\<close>

theorem hexToSimHash_wrong_length:
  "(length hex \<noteq> 16 \<longrightarrow> hexToSimHash hex = \<lparr>high = 0, low = 0\<rparr>)
   \<and> is_uint32 (high (hexToSimHash hex)) \<and> is_uint32 (low (hexToSimHash hex))"
  by (simp add: hexToSimHash_def toUint32_range) (simp add: is_uint32_def)

theorem hexToSimHash_wrong_length_witness:
  "length (str ''abc'') \<noteq> 16 \<and> hexToSimHash (str ''abc'') = \<lparr>high = 0, low = 0\<rparr>"
  using hexToSimHash_wrong_length [of "str ''abc''"] by (simp add: str_def)

section \<open>Hamming distance\<close>

lemma and_concat:
  fixes x y p q :: int
  assumes "0 \<le> x" "x < 2 ^ j" "0 \<le> y" "y < 2 ^ j"
  shows "(x + 2 ^ j * p) AND (y + 2 ^ j * q) = (x AND y) + 2 ^ j * (p AND q)"
proof -
  let ?L = "(x + 2 ^ j * p) AND (y + 2 ^ j * q)"
  have tx: "take_bit j (x + 2 ^ j * p) = x" and ty: "take_bit j (y + 2 ^ j * q) = y"
    using assms by (simp_all add: take_bit_eq_mod)
  have dx: "drop_bit j (x + 2 ^ j * p) = p" and dy: "drop_bit j (y + 2 ^ j * q) = q"
    using assms by (simp_all add: drop_bit_eq_div)
  have "?L = push_bit j (drop_bit j ?L) + take_bit j ?L"
    by (rule bits_ident [symmetric])
  also have "\<dots> = push_bit j (p AND q) + (x AND y)"
    by (simp only: drop_bit_and take_bit_and tx ty dx dy)
  finally show ?thesis
    by (simp add: push_bit_eq_mult)
qed

lemma digits_value_split:
  "digits_value k ds
     = digits_value (k + k) (even_digits ds) + 2 ^ k * digits_value (k + k) (odd_digits ds)"
  by (induction ds rule: even_digits.induct) (simp_all add: power_add algebra_simps)

lemma digits_value_pair_sums:
  "digits_value j (pair_sums ds)
     = digits_value j (even_digits ds) + digits_value j (odd_digits ds)"
  by (induction ds rule: even_digits.induct) (simp_all add: algebra_simps)

lemma odd_digits_Cons: "odd_digits (a # ds) = even_digits ds"
  by (induction ds arbitrary: a rule: even_digits.induct) simp_all

lemma digits_value_shift:
  "0 \<le> d \<Longrightarrow> d < 2 ^ k \<Longrightarrow> digits_value k (d # ds) div 2 ^ k = digits_value k ds"
  by simp

lemma exp_le_double: "(2 :: int) ^ k \<le> 2 ^ (k + k)"
  by (rule power_increasing) simp_all

lemma mask_bounds:
  shows "(0 :: int) \<le> 2 ^ k - 1" and "(2 :: int) ^ k - 1 < 2 ^ (k + k)"
proof -
  show "(0 :: int) \<le> 2 ^ k - 1"
    by simp
  show "(2 :: int) ^ k - 1 < 2 ^ (k + k)"
    using exp_le_double [of k] by linarith
qed

lemma pair_below:
  fixes a b :: int
  assumes "0 \<le> a" "a < 2 ^ k" "0 \<le> b" "b < 2 ^ k"
  shows "0 \<le> a + 2 ^ k * b" and "a + 2 ^ k * b < 2 ^ (k + k)"
proof -
  show "0 \<le> a + 2 ^ k * b"
    using assms by simp
  have "b + 1 \<le> 2 ^ k"
    using assms by simp
  then have "2 ^ k * (b + 1) \<le> (2 ^ k :: int) * 2 ^ k"
    by (intro mult_left_mono) simp_all
  then show "a + 2 ^ k * b < 2 ^ (k + k)"
    using assms by (simp add: power_add algebra_simps)
qed

lemma and_even_digits:
  "digits_below (2 ^ k) ds \<Longrightarrow> length ds \<le> 2 * m \<Longrightarrow> 0 < k \<Longrightarrow>
   digits_value k ds AND digits_value (k + k) (replicate m (2 ^ k - 1))
     = digits_value (k + k) (even_digits ds)"
proof (induction ds arbitrary: m rule: even_digits.induct)
  case (1 a b ds)
  then obtain m' where m: "m = Suc m'"
    by (cases m) auto
  from 1 have a: "0 \<le> a" "a < 2 ^ k" and b: "0 \<le> b" "b < 2 ^ k"
    and ds: "digits_below (2 ^ k) ds"
    by (simp_all add: digits_below_def)
  have len: "length ds \<le> 2 * m'"
    using "1.prems"(2) m by simp
  note msk = mask_bounds [of k]
  have low: "(a + 2 ^ k * b) AND (2 ^ k - 1) = a"
  proof -
    have "(a + 2 ^ k * b) AND (2 ^ k - 1) = take_bit k (a + 2 ^ k * b)"
      by (simp add: take_bit_eq_mask mask_eq_exp_minus_1)
    also have "\<dots> = a"
      using a by (simp add: take_bit_eq_mod)
    finally show ?thesis .
  qed
  have "digits_value k (a # b # ds) AND digits_value (k + k) (replicate m (2 ^ k - 1))
      = ((a + 2 ^ k * b) + 2 ^ (k + k) * digits_value k ds)
        AND ((2 ^ k - 1) + 2 ^ (k + k) * digits_value (k + k) (replicate m' (2 ^ k - 1)))"
    by (simp add: m power_add algebra_simps)
  also have "\<dots> = ((a + 2 ^ k * b) AND (2 ^ k - 1))
      + 2 ^ (k + k) * (digits_value k ds AND digits_value (k + k) (replicate m' (2 ^ k - 1)))"
    by (rule and_concat [OF pair_below [OF a b] msk])
  also have "\<dots> = a + 2 ^ (k + k) * digits_value (k + k) (even_digits ds)"
    using "1.IH" [OF ds len "1.prems"(3)] low by simp
  finally show ?case
    by simp
next
  case (2 a)
  then obtain m' where m: "m = Suc m'"
    by (cases m) auto
  from 2 have a: "0 \<le> a" "a < 2 ^ k"
    by (simp_all add: digits_below_def)
  have a2: "a < 2 ^ (k + k)"
    using a exp_le_double [of k] by linarith
  note msk = mask_bounds [of k]
  have low: "a AND (2 ^ k - 1) = a"
  proof -
    have "a AND (2 ^ k - 1) = take_bit k a"
      by (simp add: take_bit_eq_mask mask_eq_exp_minus_1)
    also have "\<dots> = a"
      using a by (simp add: take_bit_eq_mod)
    finally show ?thesis .
  qed
  have "digits_value k [a] AND digits_value (k + k) (replicate m (2 ^ k - 1))
      = (a + 2 ^ (k + k) * 0)
        AND ((2 ^ k - 1) + 2 ^ (k + k) * digits_value (k + k) (replicate m' (2 ^ k - 1)))"
    by (simp add: m)
  also have "\<dots> = (a AND (2 ^ k - 1))
      + 2 ^ (k + k) * (0 AND digits_value (k + k) (replicate m' (2 ^ k - 1)))"
    by (rule and_concat [OF a(1) a2 msk])
  finally show ?case
    using low by simp
next
  case 3
  then show ?case by simp
qed


lemma and_odd_digits:
  assumes "digits_below (2 ^ k) ds" and "length ds \<le> 2 * m" and "0 < k"
  shows "(digits_value k ds div 2 ^ k) AND digits_value (k + k) (replicate m (2 ^ k - 1))
           = digits_value (k + k) (odd_digits ds)"
proof (cases ds)
  case Nil
  then show ?thesis by simp
next
  case (Cons d ds')
  with assms have d: "0 \<le> d" "d < 2 ^ k" and ds': "digits_below (2 ^ k) ds'"
    and len: "length ds' \<le> 2 * m"
    by (simp_all add: digits_below_def)
  have "digits_value k ds div 2 ^ k = digits_value k ds'"
    using d by (simp add: Cons)
  then show ?thesis
    using and_even_digits [OF ds' len assms(3)] by (simp add: Cons odd_digits_Cons)
qed

lemma swar_pair_step:
  assumes "digits_below (2 ^ k) ds" and "length ds \<le> 2 * m" and "0 < k"
  shows "(digits_value k ds AND digits_value (k + k) (replicate m (2 ^ k - 1)))
         + ((digits_value k ds div 2 ^ k) AND digits_value (k + k) (replicate m (2 ^ k - 1)))
           = digits_value (k + k) (pair_sums ds)"
  by (simp add: and_even_digits [OF assms] and_odd_digits [OF assms] digits_value_pair_sums)

lemma pair_sums_below: "digits_below c ds \<Longrightarrow> digits_below (2 * c - 1) (pair_sums ds)"
  by (induction ds rule: pair_sums.induct) (auto simp: digits_below_def)

lemma digits_below_mono: "digits_below c ds \<Longrightarrow> c \<le> c' \<Longrightarrow> digits_below c' ds"
  by (induction ds) (auto simp: digits_below_def)

lemma length_pair_sums: "length (pair_sums ds) = (length ds + 1) div 2"
  by (induction ds rule: pair_sums.induct) simp_all

lemma sum_list_pair_sums: "sum_list (pair_sums ds) = sum_list ds"
  by (induction ds rule: pair_sums.induct) simp_all

lemma list8:
  assumes "length xs = 8"
  shows "\<exists>a b c d e f g h. xs = [a, b, c, d, e, f, g, h]"
proof -
  from assms obtain a xs1 where 1: "xs = a # xs1" "length xs1 = 7"
    by (cases xs) auto
  then obtain b xs2 where 2: "xs1 = b # xs2" "length xs2 = 6"
    by (cases xs1) auto
  then obtain c xs3 where 3: "xs2 = c # xs3" "length xs3 = 5"
    by (cases xs2) auto
  then obtain d xs4 where 4: "xs3 = d # xs4" "length xs4 = 4"
    by (cases xs3) auto
  then obtain e xs5 where 5: "xs4 = e # xs5" "length xs5 = 3"
    by (cases xs4) auto
  then obtain f xs6 where 6: "xs5 = f # xs6" "length xs6 = 2"
    by (cases xs5) auto
  then obtain g xs7 where 7: "xs6 = g # xs7" "length xs7 = 1"
    by (cases xs6) auto
  then obtain h where 8: "xs7 = [h]"
    by (cases xs7) auto
  from 1 2 3 4 5 6 7 8 show ?thesis
    by simp
qed

lemma swar_tail:
  fixes c0 c1 c2 c3 c4 c5 c6 c7 :: int
  assumes "digits_below 5 [c0, c1, c2, c3, c4, c5, c6, c7]"
  defines "u2 \<equiv> digits_value 4 [c0, c1, c2, c3, c4, c5, c6, c7]"
  defines "u3 \<equiv> (u2 + u2 div 16) AND 0x0f0f0f0f"
  defines "u4 \<equiv> u3 + u3 div 256"
  defines "u5 \<equiv> u4 + u4 div 65536"
  shows "u5 AND 0x3f = c0 + c1 + c2 + c3 + c4 + c5 + c6 + c7"
proof -
  from assms(1) have c: "0 \<le> c0" "c0 < 5" "0 \<le> c1" "c1 < 5" "0 \<le> c2" "c2 < 5" "0 \<le> c3" "c3 < 5"
    "0 \<le> c4" "c4 < 5" "0 \<le> c5" "c5 < 5" "0 \<le> c6" "c6 < 5" "0 \<le> c7" "c7 < 5"
    by (simp_all add: digits_below_def)
  define e0 e1 e2 e3 where "e0 = c0 + c1" and "e1 = c2 + c3" and "e2 = c4 + c5" and "e3 = c6 + c7"
  have e: "0 \<le> e0" "e0 < 9" "0 \<le> e1" "e1 < 9" "0 \<le> e2" "e2 < 9" "0 \<le> e3" "e3 < 9"
    using c by (simp_all add: e0_def e1_def e2_def e3_def)
  have "u2 div 16 = digits_value 4 [c1, c2, c3, c4, c5, c6, c7]"
    using digits_value_shift [of c0 4 "[c1, c2, c3, c4, c5, c6, c7]"] c by (simp add: u2_def)
  then have "u2 + u2 div 16
      = digits_value 4 [c0 + c1, c1 + c2, c2 + c3, c3 + c4, c4 + c5, c5 + c6, c6 + c7, c7]"
    by (simp add: u2_def)
  moreover have "digits_below (2 ^ 4)
      [c0 + c1, c1 + c2, c2 + c3, c3 + c4, c4 + c5, c5 + c6, c6 + c7, c7]"
    using c by (simp add: digits_below_def)
  moreover have "(0x0f0f0f0f :: int) = digits_value (4 + 4) (replicate 4 (2 ^ 4 - 1))"
    by (simp add: eval_nat_numeral)
  ultimately have u3: "u3 = digits_value 8 [e0, e1, e2, e3]"
    using and_even_digits [of 4 "[c0 + c1, c1 + c2, c2 + c3, c3 + c4, c4 + c5, c5 + c6, c6 + c7, c7]" 4]
    by (simp add: u3_def e0_def e1_def e2_def e3_def)
  have "u3 div 256 = digits_value 8 [e1, e2, e3]"
    using digits_value_shift [of e0 8 "[e1, e2, e3]"] e by (simp add: u3)
  then have u4: "u4 = digits_value 8 [e0 + e1, e1 + e2, e2 + e3, e3]"
    by (simp add: u4_def u3)
  have "u4 div 256 = digits_value 8 [e1 + e2, e2 + e3, e3]"
    using digits_value_shift [of "e0 + e1" 8 "[e1 + e2, e2 + e3, e3]"] e by (simp add: u4)
  moreover have "digits_value 8 [e1 + e2, e2 + e3, e3] div 256 = digits_value 8 [e2 + e3, e3]"
    using digits_value_shift [of "e1 + e2" 8 "[e2 + e3, e3]"] e by simp
  moreover have "u4 div 65536 = (u4 div 256) div 256"
    by (simp add: zdiv_zmult2_eq [symmetric])
  ultimately have "u4 div 65536 = digits_value 8 [e2 + e3, e3]"
    by simp
  then have u5: "u5 = (e0 + e1 + e2 + e3) + 2 ^ 8 * (e1 + e2 + e3 + 256 * (e2 + e3 + 256 * e3))"
    by (simp add: u5_def u4)
  have s: "0 \<le> e0 + e1 + e2 + e3" "e0 + e1 + e2 + e3 < 2 ^ 8" "e0 + e1 + e2 + e3 < 2 ^ 6"
    using e by simp_all
  have "u5 AND 0x3f = ((e0 + e1 + e2 + e3) + 2 ^ 8 * (e1 + e2 + e3 + 256 * (e2 + e3 + 256 * e3)))
      AND (0x3f + 2 ^ 8 * 0)"
    by (simp add: u5)
  also have "\<dots> = ((e0 + e1 + e2 + e3) AND 0x3f)
      + 2 ^ 8 * ((e1 + e2 + e3 + 256 * (e2 + e3 + 256 * e3)) AND 0)"
    by (rule and_concat [OF s(1,2)]) simp_all
  also have "\<dots> = take_bit 6 (e0 + e1 + e2 + e3)"
    by (simp add: take_bit_eq_mask mask_eq_exp_minus_1)
  also have "\<dots> = e0 + e1 + e2 + e3"
    using s by (simp add: take_bit_eq_mod)
  finally show ?thesis
    by (simp add: e0_def e1_def e2_def e3_def)
qed

lemma swar_digits:
  assumes "digits_below 2 bs" and "length bs = 32"
  shows "swar (digits_value 1 bs) = sum_list bs"
proof -
  define u where "u = digits_value 1 bs"
  define ds1 where "ds1 = pair_sums bs"
  define ds2 where "ds2 = pair_sums ds1"
  have b1: "digits_below (2 ^ 1) bs"
    using assms(1) by simp
  have m1: "(0x55555555 :: int) = digits_value 2 (replicate 16 (2 ^ 1 - 1))"
    by (simp add: eval_nat_numeral)
  have le: "length bs \<le> 2 * 16"
    using assms(2) by simp
  have "(u div 2) AND 0x55555555 = digits_value 2 (odd_digits bs)"
    using and_odd_digits [OF b1 le zero_less_one, unfolded one_add_one]
    unfolding m1 u_def by simp
  moreover have "u = digits_value 2 (even_digits bs) + 2 * digits_value 2 (odd_digits bs)"
    using digits_value_split [of 1 bs, unfolded one_add_one] by (simp add: u_def)
  ultimately have u1: "u - ((u div 2) AND 0x55555555) = digits_value 2 ds1"
    using digits_value_pair_sums [of 2 bs] by (simp add: ds1_def)
  have b2: "digits_below (2 ^ 2) ds1"
    using pair_sums_below [OF assms(1)] unfolding ds1_def by (rule digits_below_mono) simp
  have l1: "length ds1 = 16"
    by (simp add: ds1_def length_pair_sums assms(2))
  have m2: "(0x33333333 :: int) = digits_value (2 + 2) (replicate 8 (2 ^ 2 - 1))"
    by (simp add: eval_nat_numeral)
  have u2: "(digits_value 2 ds1 AND 0x33333333) + ((digits_value 2 ds1 div 4) AND 0x33333333)
      = digits_value 4 ds2"
    using swar_pair_step [OF b2, of 8] l1 unfolding m2 ds2_def by simp
  have b3: "digits_below 5 ds2"
    using pair_sums_below [OF pair_sums_below [OF assms(1)]] by (simp add: ds2_def ds1_def)
  have l2: "length ds2 = 8"
    by (simp add: ds2_def length_pair_sums l1)
  then obtain c0 c1 c2 c3 c4 c5 c6 c7 where ds2: "ds2 = [c0, c1, c2, c3, c4, c5, c6, c7]"
    using list8 by blast
  have "swar u = c0 + c1 + c2 + c3 + c4 + c5 + c6 + c7"
    using swar_tail [of c0 c1 c2 c3 c4 c5 c6 c7] b3
    unfolding swar_def Let_def u1 u2 ds2 by simp
  also have "\<dots> = sum_list ds2"
    by (simp add: ds2)
  also have "\<dots> = sum_list bs"
    by (simp add: ds2_def ds1_def sum_list_pair_sums)
  finally show ?thesis
    by (simp add: u_def)
qed


lemma digits_value_bits_of: "digits_value 1 (bits_of k u) = u mod 2 ^ k"
proof (induction k arbitrary: u)
  case 0
  then show ?case by simp
next
  case (Suc k)
  have "u mod (2 * 2 ^ k) = 2 * (u div 2 mod 2 ^ k) + u mod 2"
    by (rule zmod_zmult2_eq) simp
  with Suc show ?case
    by simp
qed

lemma bits_of_below: "digits_below 2 (bits_of k u)"
  by (induction k arbitrary: u) (simp_all add: digits_below_def)

lemma length_bits_of: "length (bits_of k u) = k"
  by (induction k arbitrary: u) simp_all

lemma sum_list_bits_of: "sum_list (bits_of k u) = int (length (filter (bit u) [0..<k]))"
proof (induction k arbitrary: u)
  case 0
  then show ?case by simp
next
  case (Suc k)
  have "[0..<Suc k] = 0 # map Suc [0..<k]"
    by (simp only: map_Suc_upt upt_conv_Cons [OF zero_less_Suc])
  then have "filter (bit u) [0..<Suc k]
      = (if odd u then [0] else []) @ map Suc (filter (bit (u div 2)) [0..<k])"
    by (simp add: filter_map comp_def bit_Suc bit_0 del: upt_Suc)
  then have "int (length (filter (bit u) [0..<Suc k]))
      = u mod 2 + int (length (filter (bit (u div 2)) [0..<k]))"
    by (simp add: mod_2_eq_odd del: upt_Suc)
  with Suc [of "u div 2"] show ?case
    by simp
qed

lemma swar_counts_bits:
  "swar (take_bit 32 u) = int (length (filter (bit u) [0..<32]))"
proof -
  have "digits_value 1 (bits_of 32 u) = take_bit 32 u"
    by (simp only: digits_value_bits_of take_bit_eq_mod)
  with swar_digits [OF bits_of_below [of 32 u] length_bits_of [of 32 u]] show ?thesis
    by (simp only: sum_list_bits_of)
qed

lemma small_bits:
  fixes M :: int
  assumes "0 \<le> M" and "M < 2 ^ n" and "bit M i"
  shows "i < n"
proof -
  have "take_bit n M = M"
    using assms by (simp add: take_bit_eq_mod)
  then have "bit (take_bit n M) i"
    using assms(3) by simp
  then show ?thesis
    by (simp add: bit_take_bit_iff)
qed

lemma js_and_mask:
  assumes "0 \<le> M" and "M < 2 ^ 31"
  shows "js_and a M = take_bit 32 a AND M"
proof (rule bit_eqI)
  fix i
  show "bit (js_and a M) i \<longleftrightarrow> bit (take_bit 32 a AND M) i"
    using small_bits [OF assms, of i] small_bits [OF assms, of 31]
    by (auto simp: js_and_def toInt32_def bit_sint_iff bit_and_iff bit_word_of_int_iff
        bit_take_bit_iff)
qed

lemma js_sar_and_mask:
  assumes "0 \<le> M" and "M < 2 ^ (32 - k)" and "0 < k" and "k < 32"
  shows "js_and (js_sar a k) M = drop_bit k (take_bit 32 a) AND M"
proof (rule bit_eqI)
  fix i
  have "M < 2 ^ 31"
  proof -
    have "(2 :: int) ^ (32 - k) \<le> 2 ^ 31"
      using assms(3) by (intro power_increasing) simp_all
    with assms(2) show ?thesis
      by simp
  qed
  note m = js_and_mask [OF assms(1) this]
  show "bit (js_and (js_sar a k) M) i \<longleftrightarrow> bit (drop_bit k (take_bit 32 a) AND M) i"
  proof (cases "bit M i")
    case False
    then show ?thesis
      by (simp add: m bit_and_iff)
  next
    case True
    then have i: "i < 32 - k"
      using small_bits [OF assms(1,2)] by blast
    then have "min 31 (k + i) = k + i" "k + i < 32" "i < 32"
      using assms(3,4) by simp_all
    then show ?thesis
      using assms(4)
      by (simp add: m js_sar_def toInt32_def bit_and_iff bit_take_bit_iff bit_drop_bit_eq
          sint_signed_drop_bit_eq signed_of_int bit_signed_take_bit_iff)
  qed
qed

lemma js_sar_small:
  assumes "0 \<le> a" and "a < 2 ^ 31" and "k < 32"
  shows "js_sar a k = a div 2 ^ k"
proof -
  have "sint (word_of_int a :: 32 word) = a"
    using assms by (simp add: signed_of_int signed_take_bit_int_eq_self)
  then show ?thesis
    using assms(3) by (simp add: js_sar_def toInt32_def sint_signed_drop_bit_eq drop_bit_eq_div)
qed


lemma popcount32_swar: "popcount32 n = swar (take_bit 32 n)"
proof -
  define u where "u = take_bit 32 n"
  have u: "0 \<le> u" "u < 2 ^ 32"
    using take_bit_int_less_exp [of 32 n] by (simp_all add: u_def)
  define X where "X = (u div 2) AND 0x55555555"
  have X: "0 \<le> X" "X \<le> u"
  proof -
    show "0 \<le> X"
      by (simp add: X_def)
    have "X \<le> u div 2"
      unfolding X_def using u(1) by (intro AND_upper1) simp
    also have "\<dots> \<le> u"
      using u(1) by simp
    finally show "X \<le> u" .
  qed
  have sX: "js_and (js_sar n 1) 0x55555555 = X"
    by (simp add: js_sar_and_mask X_def u_def drop_bit_eq_div)
  define u1 where "u1 = u - X"
  have u1: "0 \<le> u1" "u1 < 2 ^ 32"
    using u X by (simp_all add: u1_def)
  have t1: "take_bit 32 (n - X) = u1"
  proof -
    have "take_bit 32 (n - X) = take_bit 32 (take_bit 32 n - take_bit 32 X)"
      by (simp only: take_bit_diff)
    also have "take_bit 32 X = X"
      using X u by (simp add: take_bit_eq_mod)
    finally show ?thesis
      using u1 by (simp add: u1_def u_def take_bit_eq_mod)
  qed
  define u2 where "u2 = (u1 AND 0x33333333) + ((u1 div 4) AND 0x33333333)"
  have "js_and (n - X) 0x33333333 = u1 AND 0x33333333"
    by (simp add: js_and_mask t1)
  moreover have "js_and (js_sar (n - X) 2) 0x33333333 = (u1 div 4) AND 0x33333333"
    by (simp add: js_sar_and_mask t1 drop_bit_eq_div)
  ultimately have s2: "js_and (n - X) 0x33333333 + js_and (js_sar (n - X) 2) 0x33333333 = u2"
    by (simp only: u2_def)
  have u2: "0 \<le> u2" "u2 \<le> 0x66666666"
  proof -
    have a: "u1 AND 0x33333333 \<le> 0x33333333" "(u1 div 4) AND 0x33333333 \<le> 0x33333333"
      by (rule AND_upper2; simp)+
    show "0 \<le> u2"
      by (simp add: u2_def)
    from a show "u2 \<le> 0x66666666"
      unfolding u2_def by linarith
  qed
  have r2: "js_sar u2 4 = u2 div 16"
    using js_sar_small [of u2 4] u2 by simp
  define u3 where "u3 = (u2 + u2 div 16) AND 0x0f0f0f0f"
  have v3: "0 \<le> u2 + u2 div 16" "u2 + u2 div 16 < 2 ^ 32"
    using u2 by simp_all
  have s3: "js_and (u2 + u2 div 16) 0x0f0f0f0f = u3"
    using v3 by (simp add: js_and_mask u3_def take_bit_eq_mod)
  have u3: "0 \<le> u3" "u3 \<le> 0x0f0f0f0f"
    unfolding u3_def by (simp, rule AND_upper2, simp)
  have r3: "js_sar u3 8 = u3 div 256"
    using js_sar_small [of u3 8] u3 by simp
  define u4 where "u4 = u3 + u3 div 256"
  have u4: "0 \<le> u4" "u4 < 2 ^ 31"
    using u3 by (simp_all add: u4_def)
  have r4: "js_sar u4 16 = u4 div 65536"
    using js_sar_small [of u4 16] u4 by simp
  define u5 where "u5 = u4 + u4 div 65536"
  have u5: "0 \<le> u5" "u5 < 2 ^ 32"
    using u4 by (simp_all add: u5_def)
  have s5: "js_and u5 0x3f = u5 AND 0x3f"
    using u5 by (simp add: js_and_mask take_bit_eq_mod)
  have "popcount32 n = u5 AND 0x3f"
    by (simp only: popcount32_def Let_def sX s2 r2 s3 r3 u4_def [symmetric] r4
        u5_def [symmetric] s5)
  also have "\<dots> = swar u"
    by (simp only: swar_def Let_def X_def [symmetric] u1_def [symmetric] u2_def [symmetric]
        u3_def [symmetric] u4_def [symmetric] u5_def [symmetric])
  finally show ?thesis
    by (simp only: u_def)
qed

lemma popcount32_counts_bits: "popcount32 n = int (spec_bit_count n)"
  by (simp only: popcount32_swar swar_counts_bits spec_bit_count_def)

lemma bit_js_xor: "i < 32 \<Longrightarrow> bit (js_xor x y) i \<longleftrightarrow> bit x i \<noteq> bit y i"
  by (simp add: js_xor_def toInt32_def bit_sint_iff bit_xor_iff bit_word_of_int_iff)

lemma bit_count_js_xor: "spec_bit_count (js_xor x y) = spec_differing_bits x y"
proof -
  have "filter (bit (js_xor x y)) [0..<32] = filter (\<lambda>i. bit x i \<noteq> bit y i) [0..<32]"
    by (rule filter_cong) (simp_all add: bit_js_xor)
  then show ?thesis
    by (simp only: spec_bit_count_def spec_differing_bits_def)
qed

lemma spec_differing_bits_le: "spec_differing_bits x y \<le> 32"
  using length_filter_le [of "\<lambda>i. bit x i \<noteq> bit y i" "[0..<32]"]
  by (simp add: spec_differing_bits_def)

lemma spec_differing_bits_same: "spec_differing_bits x x = 0"
  by (simp add: spec_differing_bits_def)

text \<open>
  C6. For fingerprints whose halves are unsigned 32-bit values, \<open>hammingDistance\<close> is
  the number of bit positions, over both halves, at which the two fingerprints differ:
  \<open>popcount32\<close> of each XORed half is the number of bits set in it. So the distance
  lies between 0 and 64, and the distance of a fingerprint to itself is 0.
\<close>

theorem hammingDistance_counts_bits:
  assumes "is_uint32 (high a)" and "is_uint32 (low a)"
    and "is_uint32 (high b)" and "is_uint32 (low b)"
  shows "hammingDistance a b
           = int (spec_differing_bits (high a) (high b) + spec_differing_bits (low a) (low b))
         \<and> popcount32 (js_xor (high a) (high b)) = int (spec_bit_count (js_xor (high a) (high b)))
         \<and> popcount32 (js_xor (low a) (low b)) = int (spec_bit_count (js_xor (low a) (low b)))
         \<and> 0 \<le> hammingDistance a b \<and> hammingDistance a b \<le> 64
         \<and> hammingDistance a a = 0"
proof -
  have d: "hammingDistance x y
      = int (spec_differing_bits (high x) (high y) + spec_differing_bits (low x) (low y))" for x y
    by (simp add: hammingDistance_def Let_def popcount32_counts_bits bit_count_js_xor)
  have "hammingDistance a b \<le> 64"
    using spec_differing_bits_le [of "high a" "high b"] spec_differing_bits_le [of "low a" "low b"]
    unfolding d by simp
  moreover have "0 \<le> hammingDistance a b"
    unfolding d by simp
  moreover have "hammingDistance a a = 0"
    unfolding d spec_differing_bits_same by simp
  ultimately show ?thesis
    using d [of a b] popcount32_counts_bits by blast
qed

theorem hammingDistance_counts_bits_witness:
  "is_uint32 4294967295 \<and> is_uint32 0 \<and> is_uint32 4042322161
   \<and> hammingDistance \<lparr>high = 4294967295, low = 0\<rparr> \<lparr>high = 0, low = 4042322161\<rparr> = 49
   \<and> spec_differing_bits 4294967295 0 + spec_differing_bits 0 4042322161 = 49"
proof -
  have u: "is_uint32 4294967295" "is_uint32 0" "is_uint32 4042322161"
    by (simp_all add: is_uint32_def)
  have e: "hammingDistance \<lparr>high = 4294967295, low = 0\<rparr> \<lparr>high = 0, low = 4042322161\<rparr> = 49"
    by (simp add: hammingDistance_def popcount32_def js_eval Let_def)
  from hammingDistance_counts_bits
    [of "\<lparr>high = 4294967295, low = 0\<rparr>" "\<lparr>high = 0, low = 4042322161\<rparr>"] u
  have "hammingDistance \<lparr>high = 4294967295, low = 0\<rparr> \<lparr>high = 0, low = 4042322161\<rparr>
      = int (spec_differing_bits 4294967295 0 + spec_differing_bits 0 4042322161)"
    by simp
  with e u show ?thesis
    by simp
qed


section \<open>Clustering\<close>

text \<open>
  C9. For fingerprints \<open>A\<close>, \<open>B\<close>, \<open>C\<close> at indices 0, 1, 2 and a threshold \<open>t\<close> with
  \<open>hammingDistance A B \<le> t\<close> and \<open>hammingDistance A C > t\<close>, the clusters are
  \<open>[[0, 1], [2]]\<close>, whatever the distance between \<open>B\<close> and \<open>C\<close>.
\<close>

theorem clusterBySimilarity_seed_only:
  assumes "hammingDistance A B \<le> t" and "hammingDistance A C > t"
  shows "clusterBySimilarity [A, B, C] t = [[0, 1], [2]]"
  using assms
  by (simp add: clusterBySimilarity_def outerLoop.simps innerLoop.simps isSimilar_def)

lemma popcount32_eval:
  "popcount32 0 = 0" "popcount32 7 = 3" "popcount32 63 = 6" "popcount32 56 = 3"
  by (simp_all add: popcount32_def js_eval Let_def)

theorem clusterBySimilarity_seed_only_witness:
  "hammingDistance \<lparr>high = 0, low = 0\<rparr> \<lparr>high = 0, low = 7\<rparr> \<le> 3
   \<and> hammingDistance \<lparr>high = 0, low = 0\<rparr> \<lparr>high = 0, low = 63\<rparr> > 3
   \<and> hammingDistance \<lparr>high = 0, low = 7\<rparr> \<lparr>high = 0, low = 63\<rparr> \<le> 3
   \<and> clusterBySimilarity
        [\<lparr>high = 0, low = 0\<rparr>, \<lparr>high = 0, low = 7\<rparr>, \<lparr>high = 0, low = 63\<rparr>] 3
       = [[0, 1], [2]]"
proof -
  have ab: "hammingDistance \<lparr>high = 0, low = 0\<rparr> \<lparr>high = 0, low = 7\<rparr> \<le> 3"
    by (simp add: hammingDistance_def js_xor_def toInt32_def popcount32_eval)
  have ac: "hammingDistance \<lparr>high = 0, low = 0\<rparr> \<lparr>high = 0, low = 63\<rparr> > 3"
    by (simp add: hammingDistance_def js_xor_def toInt32_def popcount32_eval)
  have bc: "hammingDistance \<lparr>high = 0, low = 7\<rparr> \<lparr>high = 0, low = 63\<rparr> \<le> 3"
    by (simp add: hammingDistance_def js_xor_def toInt32_def popcount32_eval)
  from clusterBySimilarity_seed_only [OF ab ac] ab ac bc show ?thesis
    by simp
qed



lemma innerLoop_adds:
  "\<exists>added. innerLoop hashes t i j (cluster, visited) = (cluster @ added, visited \<union> set added)
     \<and> sorted_wrt (<) added
     \<and> set added \<subseteq> {j..<length hashes}
     \<and> set added \<inter> visited = {}"
proof (induction hashes t i j "(cluster, visited)" arbitrary: cluster visited rule: innerLoop.induct)
  case (1 hashes t i j cluster visited)
  show ?case
  proof (cases "j < length hashes")
    case False
    then have "innerLoop hashes t i j (cluster, visited) = (cluster @ [], visited \<union> set [])"
      by (subst innerLoop.simps) simp
    then show ?thesis
      by (intro exI [of _ "[]"]) simp
  next
    case True
    note inr = this
    show ?thesis
    proof (cases "j \<in> visited")
      case True
      from "1.hyps"(1) [OF inr True] obtain added
        where a: "innerLoop hashes t i (j + 1) (cluster, visited)
                    = (cluster @ added, visited \<union> set added)"
          and s: "sorted_wrt (<) added" and r: "set added \<subseteq> {j + 1..<length hashes}"
          and d: "set added \<inter> visited = {}"
        by blast
      have "innerLoop hashes t i j (cluster, visited) = (cluster @ added, visited \<union> set added)"
        using inr True a by (subst innerLoop.simps) simp
      moreover have "set added \<subseteq> {j..<length hashes}"
        using r by auto
      ultimately show ?thesis
        using s d by blast
    next
      case False
      note unvisited = this
      show ?thesis
      proof (cases "isSimilar (hashes ! i) (hashes ! j) t")
        case True
        from "1.hyps"(2) [OF inr unvisited True] obtain added
          where a: "innerLoop hashes t i (j + 1) (cluster @ [j], insert j visited)
                      = ((cluster @ [j]) @ added, insert j visited \<union> set added)"
            and s: "sorted_wrt (<) added" and r: "set added \<subseteq> {j + 1..<length hashes}"
            and d: "set added \<inter> insert j visited = {}"
          by blast
        have "innerLoop hashes t i j (cluster, visited)
                = (cluster @ (j # added), visited \<union> set (j # added))"
          using inr unvisited True a by (subst innerLoop.simps) simp
        moreover have "sorted_wrt (<) (j # added)"
          using s r by auto
        moreover have "set (j # added) \<subseteq> {j..<length hashes}"
          using r inr by auto
        moreover have "set (j # added) \<inter> visited = {}"
          using d unvisited by auto
        ultimately show ?thesis
          by blast
      next
        case False
        from "1.hyps"(3) [OF inr unvisited False] obtain added
          where a: "innerLoop hashes t i (j + 1) (cluster, visited)
                      = (cluster @ added, visited \<union> set added)"
            and s: "sorted_wrt (<) added" and r: "set added \<subseteq> {j + 1..<length hashes}"
            and d: "set added \<inter> visited = {}"
          by blast
        have "innerLoop hashes t i j (cluster, visited) = (cluster @ added, visited \<union> set added)"
          using inr unvisited False a by (subst innerLoop.simps) simp
        moreover have "set added \<subseteq> {j..<length hashes}"
          using r by auto
        ultimately show ?thesis
          using s d by blast
      qed
    qed
  qed
qed

lemma outerLoop_partition:
  "clusters_ok (length hashes) visited clusters \<Longrightarrow> {0..<i} \<subseteq> visited \<Longrightarrow>
   clusters_ok (length hashes) {0..<length hashes} (outerLoop hashes t i (visited, clusters))"
proof (induction hashes t i "(visited, clusters)" arbitrary: visited clusters rule: outerLoop.induct)
  case (1 hashes t i visited clusters)
  show ?case
  proof (cases "i < length hashes")
    case False
    with "1.prems" have "visited = {0..<length hashes}"
      by (auto simp: clusters_ok_def)
    with False "1.prems"(1) show ?thesis
      by (subst outerLoop.simps) simp
  next
    case True
    note inr = this
    show ?thesis
    proof (cases "i \<in> visited")
      case True
      have "{0..<i + 1} \<subseteq> visited"
        using True "1.prems"(2) by (auto simp: less_Suc_eq)
      from "1.hyps"(1) [OF inr True "1.prems"(1) this] inr True show ?thesis
        by (subst outerLoop.simps) simp
    next
      case False
      obtain added
        where a: "innerLoop hashes t i (i + 1) ([i], insert i visited)
                    = ([i] @ added, insert i visited \<union> set added)"
          and s: "sorted_wrt (<) added" and r: "set added \<subseteq> {i + 1..<length hashes}"
          and d: "set added \<inter> insert i visited = {}"
        using innerLoop_adds [of hashes t i "i + 1" "[i]" "insert i visited"] by blast
      have da: "distinct added"
        using s by (simp add: strict_sorted_iff)
      have ok: "clusters_ok (length hashes) (insert i visited \<union> set added)
                  (clusters @ [[i] @ added])"
        using "1.prems"(1) False s r d inr da
        by (auto simp: clusters_ok_def)
      have sub: "{0..<i + 1} \<subseteq> insert i visited \<union> set added"
        using "1.prems"(2) by (auto simp: less_Suc_eq)
      from "1.hyps"(2) [OF inr False a [symmetric] ok sub] inr False a show ?thesis
        by (subst outerLoop.simps) simp
    qed
  qed
qed

lemma sorted_hd_Min:
  assumes "c \<noteq> []" and "sorted_wrt (<) (c :: nat list)"
  shows "hd c = Min (set c)"
proof -
  obtain x xs where c: "c = x # xs"
    using assms(1) by (cases c) auto
  with assms(2) have "\<forall>y \<in> set xs. x < y"
    by simp
  then have "Min (set (x # xs)) = x"
    by (intro Min_eqI) (auto simp: less_imp_le)
  with c show ?thesis
    by simp
qed

lemma concat_distinct_unique:
  "distinct (concat cs) \<Longrightarrow> k < length cs \<Longrightarrow> k' < length cs \<Longrightarrow>
   i \<in> set (cs ! k) \<Longrightarrow> i \<in> set (cs ! k') \<Longrightarrow> k = k'"
proof (induction cs arbitrary: k k')
  case Nil
  then show ?case by simp
next
  case (Cons c cs)
  show ?case
  proof (cases k)
    case 0
    note k0 = this
    show ?thesis
    proof (cases k')
      case 0
      with k0 show ?thesis by simp
    next
      case (Suc j')
      with Cons.prems k0 have "i \<in> set c" "i \<in> set (concat cs)"
        by auto
      with Cons.prems(1) show ?thesis
        by auto
    qed
  next
    case (Suc j)
    note kS = this
    show ?thesis
    proof (cases k')
      case 0
      with Cons.prems kS have "i \<in> set c" "i \<in> set (concat cs)"
        by auto
      with Cons.prems(1) show ?thesis
        by auto
    next
      case (Suc j')
      with Cons.prems kS Cons.IH [of j j'] show ?thesis
        by simp
    qed
  qed
qed

text \<open>
  C10. The clusters of \<open>clusterBySimilarity\<close> partition the indices \<open>0, ..., n - 1\<close>:
  the clusters put together hold every index below \<open>n\<close> and nothing else, each once, so
  every index lies in exactly one cluster; every cluster is non-empty, and its first
  element is its smallest.
\<close>

theorem clusterBySimilarity_partition:
  "distinct (concat (clusterBySimilarity hashes t))
   \<and> set (concat (clusterBySimilarity hashes t)) = {0..<length hashes}
   \<and> (\<forall>i < length hashes. \<exists>!k. k < length (clusterBySimilarity hashes t)
                                  \<and> i \<in> set (clusterBySimilarity hashes t ! k))
   \<and> (\<forall>c \<in> set (clusterBySimilarity hashes t). c \<noteq> [] \<and> hd c = Min (set c))"
proof -
  define cs where "cs = clusterBySimilarity hashes t"
  have "clusters_ok (length hashes) {} []"
    by (simp add: clusters_ok_def)
  then have ok: "clusters_ok (length hashes) {0..<length hashes} cs"
    unfolding cs_def clusterBySimilarity_def by (rule outerLoop_partition) simp
  then have d: "distinct (concat cs)" and s: "set (concat cs) = {0..<length hashes}"
    and c: "\<forall>c \<in> set cs. c \<noteq> [] \<and> sorted_wrt (<) c"
    by (simp_all add: clusters_ok_def)
  have m: "\<forall>c \<in> set cs. c \<noteq> [] \<and> hd c = Min (set c)"
    using c sorted_hd_Min by blast
  have u: "\<exists>!k. k < length cs \<and> i \<in> set (cs ! k)" if "i < length hashes" for i
  proof -
    from that s have "i \<in> set (concat cs)"
      by simp
    then obtain c where "c \<in> set cs" "i \<in> set c"
      by auto
    then obtain k where k: "k < length cs" "i \<in> set (cs ! k)"
      by (auto simp: in_set_conv_nth)
    have "k' = k" if "k' < length cs" "i \<in> set (cs ! k')" for k'
      using concat_distinct_unique [OF d that(1) k(1) that(2) k(2)] .
    with k show ?thesis
      by blast
  qed
  from d s m u show ?thesis
    unfolding cs_def by blast
qed


lemma popcount32_eval2:
  "popcount32 62 = 5" "popcount32 1 = 1"
  by (simp_all add: popcount32_def js_eval Let_def)

theorem clusterBySimilarity_partition_witness:
  "clusterBySimilarity
     [\<lparr>high = 0, low = 0\<rparr>, \<lparr>high = 0, low = 63\<rparr>, \<lparr>high = 0, low = 7\<rparr>,
      \<lparr>high = 0, low = 62\<rparr>] 3 = [[0, 2], [1, 3]]
   \<and> distinct (concat (clusterBySimilarity
     [\<lparr>high = 0, low = 0\<rparr>, \<lparr>high = 0, low = 63\<rparr>, \<lparr>high = 0, low = 7\<rparr>,
      \<lparr>high = 0, low = 62\<rparr>] 3))
   \<and> set (concat (clusterBySimilarity
     [\<lparr>high = 0, low = 0\<rparr>, \<lparr>high = 0, low = 63\<rparr>, \<lparr>high = 0, low = 7\<rparr>,
      \<lparr>high = 0, low = 62\<rparr>] 3)) = {0..<4}"
proof -
  have e: "clusterBySimilarity
     [\<lparr>high = 0, low = 0\<rparr>, \<lparr>high = 0, low = 63\<rparr>, \<lparr>high = 0, low = 7\<rparr>,
      \<lparr>high = 0, low = 62\<rparr>] 3 = [[0, 2], [1, 3]]"
    by (simp add: clusterBySimilarity_def outerLoop.simps innerLoop.simps isSimilar_def
        hammingDistance_def js_xor_def toInt32_def popcount32_eval popcount32_eval2)
  have "distinct (concat (clusterBySimilarity
     [\<lparr>high = 0, low = 0\<rparr>, \<lparr>high = 0, low = 63\<rparr>, \<lparr>high = 0, low = 7\<rparr>,
      \<lparr>high = 0, low = 62\<rparr>] 3))
   \<and> set (concat (clusterBySimilarity
     [\<lparr>high = 0, low = 0\<rparr>, \<lparr>high = 0, low = 63\<rparr>, \<lparr>high = 0, low = 7\<rparr>,
      \<lparr>high = 0, low = 62\<rparr>] 3))
     = {0..<length [\<lparr>high = 0, low = 0\<rparr>, \<lparr>high = 0, low = 63\<rparr>, \<lparr>high = 0, low = 7\<rparr>,
      \<lparr>high = 0, low = 62 :: int\<rparr>]}"
    using clusterBySimilarity_partition
      [of "[\<lparr>high = 0, low = 0\<rparr>, \<lparr>high = 0, low = 63\<rparr>, \<lparr>high = 0, low = 7\<rparr>,
            \<lparr>high = 0, low = 62\<rparr>]" 3]
    by blast
  moreover have "length [\<lparr>high = 0, low = 0\<rparr>, \<lparr>high = 0, low = 63\<rparr>, \<lparr>high = 0, low = 7\<rparr>,
      \<lparr>high = 0, low = 62 :: int\<rparr>] = 4"
    by simp
  ultimately show ?thesis
    using e by (simp only: simp_thms)
qed


end
